theory Spec2Isabelle
  imports Complex_Main
begin

section \<open>Strings\<close>

text \<open>
  JavaScript strings are modelled as \<^typ>\<open>string\<close>, a list of 8-bit characters read as
  the code points U+0000 to U+00FF. The character classes of the regular expressions
  of \<^verbatim>\<open>engine.js\<close> are written out as the lists of characters they accept in that
  range. A record field that is missing in JavaScript (\<^verbatim>\<open>undefined\<close>) is the empty string
  here: every use in the source goes through \<^verbatim>\<open>(x || '')\<close> or a truthiness test, which
  treat both alike.
\<close>

definition ASCII_UPPER :: string where
  "ASCII_UPPER = ''ABCDEFGHIJKLMNOPQRSTUVWXYZ''"

definition ASCII_LOWER :: string where
  "ASCII_LOWER = ''abcdefghijklmnopqrstuvwxyz''"

definition DIGITS :: string where
  "DIGITS = ''0123456789''"

definition LATIN1_UPPER :: string where
  "LATIN1_UPPER =
     [CHR 0xC0, CHR 0xC1, CHR 0xC2, CHR 0xC3, CHR 0xC4, CHR 0xC5, CHR 0xC6, CHR 0xC7,
      CHR 0xC8, CHR 0xC9, CHR 0xCA, CHR 0xCB, CHR 0xCC, CHR 0xCD, CHR 0xCE, CHR 0xCF,
      CHR 0xD0, CHR 0xD1, CHR 0xD2, CHR 0xD3, CHR 0xD4, CHR 0xD5, CHR 0xD6,
      CHR 0xD8, CHR 0xD9, CHR 0xDA, CHR 0xDB, CHR 0xDC, CHR 0xDD, CHR 0xDE]"

definition LATIN1_LOWER :: string where
  "LATIN1_LOWER =
     [CHR 0xE0, CHR 0xE1, CHR 0xE2, CHR 0xE3, CHR 0xE4, CHR 0xE5, CHR 0xE6, CHR 0xE7,
      CHR 0xE8, CHR 0xE9, CHR 0xEA, CHR 0xEB, CHR 0xEC, CHR 0xED, CHR 0xEE, CHR 0xEF,
      CHR 0xF0, CHR 0xF1, CHR 0xF2, CHR 0xF3, CHR 0xF4, CHR 0xF5, CHR 0xF6,
      CHR 0xF8, CHR 0xF9, CHR 0xFA, CHR 0xFB, CHR 0xFC, CHR 0xFD, CHR 0xFE]"

text \<open>\<^verbatim>\<open>String.prototype.toLowerCase\<close> on U+0000..U+00FF.\<close>

definition toLowerCase_char :: "char \<Rightarrow> char" where
  "toLowerCase_char c =
     (case map_of (zip (ASCII_UPPER @ LATIN1_UPPER) (ASCII_LOWER @ LATIN1_LOWER)) c of
        Some d \<Rightarrow> d
      | None \<Rightarrow> c)"

definition toLowerCase :: "string \<Rightarrow> string" where
  "toLowerCase s = map toLowerCase_char s"

text \<open>The class \<^verbatim>\<open>\d\<close>.\<close>

definition is_digit :: "char \<Rightarrow> bool" where
  "is_digit c = (c \<in> set DIGITS)"

text \<open>The class \<^verbatim>\<open>[a-z]\<close>.\<close>

definition is_az :: "char \<Rightarrow> bool" where
  "is_az c = (c \<in> set ASCII_LOWER)"

text \<open>The class \<^verbatim>\<open>\w\<close>, which decides the word boundary \<^verbatim>\<open>\b\<close>.\<close>

definition is_word :: "char \<Rightarrow> bool" where
  "is_word c = (c \<in> set (ASCII_UPPER @ ASCII_LOWER @ DIGITS @ ''_''))"

text \<open>
  The class \<^verbatim>\<open>\s\<close>, which is also what \<^verbatim>\<open>trim\<close> strips: tab, line feed, vertical
  tab, form feed, carriage return, space and the no-break space.
\<close>

definition is_space :: "char \<Rightarrow> bool" where
  "is_space c = (c \<in> set [CHR 0x09, CHR 0x0A, CHR 0x0B, CHR 0x0C, CHR 0x0D, CHR 0x20, CHR 0xA0])"

text \<open>The line terminators, which \<^verbatim>\<open>.\<close> does not match.\<close>

definition is_line_terminator :: "char \<Rightarrow> bool" where
  "is_line_terminator c = (c \<in> set [CHR 0x0A, CHR 0x0D])"

definition trim :: "string \<Rightarrow> string" where
  "trim s = rev (dropWhile is_space (rev (dropWhile is_space s)))"

text \<open>\<^verbatim>\<open>s.startsWith(p)\<close> and the removal of an anchored literal prefix.\<close>

definition startsWith :: "string \<Rightarrow> string \<Rightarrow> bool" where
  "startsWith s p = (take (length p) s = p)"

definition strip_prefix :: "string \<Rightarrow> string \<Rightarrow> string" where
  "strip_prefix p s = (if startsWith s p then drop (length p) s else s)"

text \<open>\<^verbatim>\<open>s.split(sep)\<close> for a one-character separator: never empty.\<close>

fun split_on :: "char \<Rightarrow> string \<Rightarrow> string list" where
  "split_on sep [] = [[]]"
| "split_on sep (c # cs) =
     (if c = sep then [] # split_on sep cs
      else (case split_on sep cs of
              [] \<Rightarrow> [[c]]
            | p # ps \<Rightarrow> (c # p) # ps))"

section \<open>Entity resolution\<close>

subsection \<open>Normalisation\<close>

definition LEGAL_SUFFIXES :: "string list" where
  "LEGAL_SUFFIXES =
     [''llc'', ''inc'', ''corp'', ''ltd'', ''co'', ''company'', ''enterprises'', ''services'',
      ''solutions'', ''group'', ''associates'', ''partners'', ''pllc'', ''lp'', ''llp'']"

text \<open>
  \<^verbatim>\<open>\b\<close> holds between two positions when exactly one side is a word character; the
  flag says whether the character before the position is one.
\<close>

definition word_boundary :: "bool \<Rightarrow> string \<Rightarrow> bool" where
  "word_boundary prev_word rest =
     (prev_word \<noteq> (case rest of [] \<Rightarrow> False | c # _ \<Rightarrow> is_word c))"

text \<open>
  The alternation \<^verbatim>\<open>(llc|inc|...)\b\<close> at one position: the first alternative, in the
  order written, that matches and is followed by a word boundary.
\<close>

fun match_alt :: "string list \<Rightarrow> string \<Rightarrow> string option" where
  "match_alt [] s = None"
| "match_alt (w # ws) s =
     (if startsWith s w \<and> word_boundary True (drop (length w) s) then Some w
      else match_alt ws s)"

text \<open>
  \<^verbatim>\<open>.replace(/\b(llc|inc|...)\b/g, '')\<close>: a left-to-right scan that deletes every
  match and resumes after it.
\<close>

function strip_legal :: "bool \<Rightarrow> string \<Rightarrow> string" where
  "strip_legal prev_word [] = []"
| "strip_legal prev_word (c # cs) =
     (if word_boundary prev_word (c # cs) then
        (case match_alt LEGAL_SUFFIXES (c # cs) of
           Some w \<Rightarrow> strip_legal True (drop (length w) (c # cs))
         | None \<Rightarrow> c # strip_legal (is_word c) cs)
      else c # strip_legal (is_word c) cs)"
  by pat_completeness auto
termination
proof (relation "measure (\<lambda>(p, s). length s)")
  fix prev_word :: bool and c :: char and cs w
  assume m: "match_alt LEGAL_SUFFIXES (c # cs) = Some w"
  have "match_alt ws s = Some w \<Longrightarrow> w \<in> set ws" for ws s
    by (induction ws) (auto split: if_splits)
  with m have "w \<in> set LEGAL_SUFFIXES"
    by blast
  then have "w \<noteq> []"
    by (auto simp: LEGAL_SUFFIXES_def)
  then show "((True, drop (length w) (c # cs)), (prev_word, c # cs))
               \<in> measure (\<lambda>(p, s). length s)"
    by (cases w) auto
qed auto

text \<open>\<^verbatim>\<open>.replace(/\s+/g, ' ')\<close>; the flag says that a run of white space is open.\<close>

fun collapse_ws :: "bool \<Rightarrow> string \<Rightarrow> string" where
  "collapse_ws in_run [] = []"
| "collapse_ws in_run (c # cs) =
     (if is_space c then
        (if in_run then collapse_ws True cs else CHR '' '' # collapse_ws True cs)
      else c # collapse_ws False cs)"

definition normName :: "string \<Rightarrow> string" where
  "normName n =
     trim (collapse_ws False
       (filter (\<lambda>c. is_az c \<or> is_digit c \<or> is_space c)
          (strip_legal False (toLowerCase n))))"

text \<open>\<^verbatim>\<open>.replace(/[^\d]/g, '').slice(-10)\<close>\<close>

definition normPhone :: "string \<Rightarrow> string" where
  "normPhone p = (let d = filter is_digit p in drop (length d - 10) d)"

text \<open>
  \<^verbatim>\<open>.replace(/\/.*$/, '')\<close>: the text from the leftmost slash that no line terminator
  follows.
\<close>

fun cut_path :: "string \<Rightarrow> string" where
  "cut_path [] = []"
| "cut_path (c # cs) =
     (if c = CHR ''/'' \<and> \<not> (\<exists>x \<in> set cs. is_line_terminator x) then []
      else c # cut_path cs)"

definition strip_scheme :: "string \<Rightarrow> string" where
  "strip_scheme u =
     (if startsWith u ''https://'' then drop 8 u
      else if startsWith u ''http://'' then drop 7 u
      else u)"

definition normDomain :: "string \<Rightarrow> string" where
  "normDomain u = trim (toLowerCase (cut_path (strip_prefix ''www.'' (strip_scheme u))))"

subsection \<open>Bigram Dice coefficient\<close>

text \<open>
  \<^verbatim>\<open>dice\<close> returns a double. Its value is the quotient of two integers below \<open>2^32\<close>
  (or NaN for \<open>0/0\<close>, when both strings have one character), and the source only
  compares it with the literals 0.85 and 0.7. Rounding is monotone and the quotient
  \<open>p/q\<close> differs from \<open>17/20\<close> and \<open>7/10\<close> by at least \<open>1/(20 q)\<close> unless it is equal,
  far more than the spacing of doubles, so both comparisons give the same answer on the
  exact rational. The model therefore computes in \<^typ>\<open>rat\<close>, with \<open>None\<close> for NaN;
  every comparison with NaN is false.
\<close>

fun bg :: "string \<Rightarrow> string list" where
  "bg (a # b # cs) = [a, b] # bg (b # cs)"
| "bg _ = []"

text \<open>The inner loop over \<^verbatim>\<open>bb\<close>: the first index not yet used that holds \<open>x\<close>.\<close>

fun first_unused :: "nat set \<Rightarrow> string \<Rightarrow> string list \<Rightarrow> nat \<Rightarrow> nat option" where
  "first_unused u x [] i = None"
| "first_unused u x (y # ys) i =
     (if i \<notin> u \<and> x = y then Some i else first_unused u x ys (Suc i))"

text \<open>The outer loop over \<^verbatim>\<open>ab\<close>, with the set \<^verbatim>\<open>u\<close> and the counter \<^verbatim>\<open>m\<close>.\<close>

fun count_matches :: "string list \<Rightarrow> string list \<Rightarrow> nat set \<Rightarrow> nat \<Rightarrow> nat" where
  "count_matches [] bb u m = m"
| "count_matches (x # xs) bb u m =
     (case first_unused u x bb 0 of
        Some i \<Rightarrow> count_matches xs bb (insert i u) (Suc m)
      | None \<Rightarrow> count_matches xs bb u m)"

definition dice :: "string \<Rightarrow> string \<Rightarrow> rat option" where
  "dice a b =
     (if a = [] \<or> b = [] then Some 0
      else if a = b then Some 1
      else let ab = bg a; bb = bg b; m = count_matches ab bb {} 0 in
        if length ab + length bb = 0 then None
        else Some (of_nat (2 * m) / of_nat (length ab + length bb)))"

text \<open>\<^verbatim>\<open>s > t\<close> for a double \<open>s\<close> that may be NaN.\<close>

fun js_gt :: "rat option \<Rightarrow> rat \<Rightarrow> bool" where
  "js_gt None t = False"
| "js_gt (Some s) t = (s > t)"

subsection \<open>Records and the match predicate\<close>

text \<open>
  A business record as the discovery adapters build it, with the fields the pipeline
  adds later and the output rows read. \<open>sources\<close>, \<open>stateKey\<close> and \<open>contacts\<close> are
  absent on a fresh record; the four social links stand for the fields of
  \<^verbatim>\<open>companyInfo\<close> of the same names.
\<close>

record contact =
  email :: string
  first_name :: string
  last_name :: string
  title :: string
  cphone :: string
  confidence :: string
  source_page :: string

record biz =
  source :: string
  company_name :: string
  phone :: string
  address :: string
  city :: string
  state :: string
  website :: string
  industry :: string
  sources :: "string list option"
  stateKey :: "string option"
  contacts :: "contact list option"
  facebook :: string
  instagram :: string
  linkedin :: string
  twitter :: string
  age_label :: string
  year_founded :: string

definition sameEntity :: "biz \<Rightarrow> biz \<Rightarrow> bool" where
  "sameEntity a b =
     (let da = normDomain (website a); db = normDomain (website b) in
      if da \<noteq> [] \<and> db \<noteq> [] \<and> da = db then True
      else let pa = normPhone (phone a); pb = normPhone (phone b) in
      if pa \<noteq> [] \<and> pb \<noteq> [] \<and> length pa \<ge> 10 \<and> pa = pb then True
      else let na = normName (company_name a); nb = normName (company_name b);
               s = dice na nb in
      if js_gt s (85 / 100) then True
      else if js_gt s (7 / 10) \<and> toLowerCase (city a) = toLowerCase (city b) then True
      else False)"

subsection \<open>Incremental deduplication\<close>

text \<open>One key of the backfill loop: \<^verbatim>\<open>if (!uniq[i][k] && b[k]) uniq[i][k] = b[k]\<close>.\<close>

definition backfill :: "string \<Rightarrow> string \<Rightarrow> string" where
  "backfill old new = (if old = [] \<and> new \<noteq> [] then new else old)"

definition add_source :: "biz \<Rightarrow> string \<Rightarrow> string list" where
  "add_source u s =
     (let ss = (case sources u of None \<Rightarrow> [source u] | Some ss \<Rightarrow> ss)
      in if s \<in> set ss then ss else ss @ [s])"

text \<open>The body of the \<^verbatim>\<open>if (sameEntity(uniq[i], b))\<close> branch.\<close>

definition merge_into :: "biz \<Rightarrow> biz \<Rightarrow> biz" where
  "merge_into u b =
     u\<lparr>phone := backfill (phone u) (phone b),
       address := backfill (address u) (address b),
       city := backfill (city u) (city b),
       website := backfill (website u) (website b),
       industry := backfill (industry u) (industry b),
       sources := Some (add_source u (source b))\<rparr>"

text \<open>
  The inner \<^verbatim>\<open>for\<close> loop over \<^verbatim>\<open>uniq\<close>: it merges \<open>b\<close> into the first entity that
  matches and stops; the flag is \<^verbatim>\<open>matched\<close>.
\<close>

fun match_first :: "biz list \<Rightarrow> biz \<Rightarrow> biz list \<times> bool" where
  "match_first [] b = ([], False)"
| "match_first (u # us) b =
     (if sameEntity u b then (merge_into u b # us, True)
      else (case match_first us b of (us', matched) \<Rightarrow> (u # us', matched)))"

text \<open>One iteration of the outer loop of \<^verbatim>\<open>dedupe\<close>.\<close>

definition dedupe_step :: "biz list \<Rightarrow> biz \<Rightarrow> biz list" where
  "dedupe_step uniq b =
     (case match_first uniq b of
        (uniq', True) \<Rightarrow> uniq'
      | (uniq', False) \<Rightarrow> uniq' @ [b\<lparr>sources := Some [source b]\<rparr>])"

text \<open>
  \<^verbatim>\<open>dedupe(list)\<close>. The records of the list are values: the adapters build each one
  as a fresh object, so no two positions of the list are the same object.
\<close>

definition dedupe :: "biz list \<Rightarrow> biz list" where
  "dedupe list = foldl dedupe_step [] list"

text \<open>
  The object literal every adapter pushes:
  \<^verbatim>\<open>{ source, company_name, phone, address, city, state, website, industry }\<close>.
\<close>

definition rawRecord ::
  "string \<Rightarrow> string \<Rightarrow> string \<Rightarrow> string \<Rightarrow> string \<Rightarrow> string \<Rightarrow> string \<Rightarrow> string \<Rightarrow> biz" where
  "rawRecord src name ph addr cty st web ind =
     \<lparr>source = src, company_name = name, phone = ph, address = addr, city = cty,
      state = st, website = web, industry = ind, sources = None, stateKey = None,
      contacts = None, facebook = [], instagram = [], linkedin = [], twitter = [],
      age_label = [], year_founded = []\<rparr>"

text \<open>
  A record carries a signal that \<^const>\<open>sameEntity\<close> can match on: a website domain, a
  ten-digit phone or a name that does not normalise to the empty string.
\<close>

definition self_matching :: "biz \<Rightarrow> bool" where
  "self_matching r \<longleftrightarrow>
     normDomain (website r) \<noteq> [] \<or> length (normPhone (phone r)) = 10
     \<or> normName (company_name r) \<noteq> []"

text \<open>
  A match of \<open>u\<close> with \<open>r\<close> that later backfills of \<open>u\<close> cannot undo: the locality rule
  counts only when the locality of \<open>u\<close> is set.
\<close>

definition stable_match :: "biz \<Rightarrow> biz \<Rightarrow> bool" where
  "stable_match u r \<longleftrightarrow>
     (normDomain (website u) \<noteq> [] \<and> normDomain (website u) = normDomain (website r))
   \<or> (length (normPhone (phone u)) = 10 \<and> normPhone (phone u) = normPhone (phone r))
   \<or> js_gt (dice (normName (company_name u)) (normName (company_name r))) (85 / 100)
   \<or> (js_gt (dice (normName (company_name u)) (normName (company_name r))) (7 / 10)
        \<and> toLowerCase (city u) = toLowerCase (city r) \<and> city u \<noteq> [])"

section \<open>Enrichment\<close>

subsection \<open>Helpers\<close>

definition SKIP_EMAILS :: "string list" where
  "SKIP_EMAILS =
     [''noreply'', ''no-reply'', ''donotreply'', ''admin@'', ''webmaster@'', ''postmaster@'',
      ''hostmaster@'', ''abuse@'', ''privacy@'', ''ssl@'', ''info@example'', ''test@'',
      ''example@'', ''placeholder@'', ''dummy@'', ''fake@'', ''sentry'', ''wordpress'',
      ''wixpress'', ''squarespace'', ''godaddy'', ''cloudflare'', ''w3.org'', ''schema.org'',
      ''googleapis'', ''jquery'', ''bootstrapcdn'', ''cookie'', ''email@email'',
      ''support@wix'', ''sample@'', ''demo@'', ''user@'', ''username@'', ''@sentry'',
      ''change@me'', ''your@email'', ''name@company'', ''.png'', ''.jpg'', ''.gif'', ''.css'',
      ''.js'', ''.svg'', ''.woff'']"

text \<open>\<^verbatim>\<open>l.includes(s)\<close> and \<^verbatim>\<open>s.endsWith(p)\<close>.\<close>

fun str_includes :: "string \<Rightarrow> string \<Rightarrow> bool" where
  "str_includes [] s = (s = [])"
| "str_includes (c # cs) s = (startsWith (c # cs) s \<or> str_includes cs s)"

definition endsWith :: "string \<Rightarrow> string \<Rightarrow> bool" where
  "endsWith s p = startsWith (rev s) (rev p)"

definition validEmail :: "string \<Rightarrow> bool" where
  "validEmail e =
     (if e = [] \<or> length e > 80 \<or> length e < 6 then False
      else let l = toLowerCase e in
      if list_ex (str_includes l) SKIP_EMAILS then False
      else (case split_on CHR ''@'' l of
              [local, domain] \<Rightarrow>
                \<not> (\<not> str_includes domain ''.'' \<or> endsWith domain ''.'' \<or> startsWith domain ''.'')
            | _ \<Rightarrow> False))"

text \<open>\<^verbatim>\<open>s.split(/\s+/)\<close>: the pieces between the maximal runs of white space.\<close>

function split_ws :: "string \<Rightarrow> string list" where
  "split_ws [] = [[]]"
| "split_ws (c # cs) =
     (if is_space c then [] # split_ws (dropWhile is_space cs)
      else (case split_ws cs of
              [] \<Rightarrow> [[c]]
            | p # ps \<Rightarrow> (c # p) # ps))"
  by pat_completeness auto
termination
  by (relation "measure length") (auto simp: le_imp_less_Suc length_dropWhile_le)

text \<open>\<^verbatim>\<open>ws.join(' ')\<close>\<close>

fun join_space :: "string list \<Rightarrow> string" where
  "join_space [] = []"
| "join_space [w] = w"
| "join_space (w # ws) = w @ CHR '' '' # join_space ws"

definition firstName :: "string \<Rightarrow> string" where
  "firstName full =
     (if full = [] then []
      else (case split_ws (trim full) of [] \<Rightarrow> [] | w # _ \<Rightarrow> w))"

definition lastName :: "string \<Rightarrow> string" where
  "lastName full =
     (let p = split_ws (trim full) in if length p > 1 then join_space (tl p) else [])"

subsection \<open>Email pattern inference\<close>

text \<open>
  The object \<^verbatim>\<open>patterns\<close> of \<^verbatim>\<open>detectEmailPattern\<close>, in the insertion order that
  \<^verbatim>\<open>Object.entries\<close> enumerates.
\<close>

type_synonym counters = "(string \<times> nat) list"

definition patterns_init :: counters where
  "patterns_init =
     [(''first'', 0), (''first.last'', 0), (''firstlast'', 0), (''flast'', 0),
      (''first_last'', 0), (''firstl'', 0), (''last'', 0)]"

text \<open>\<^verbatim>\<open>patterns[k]++\<close>\<close>

fun bump :: "string \<Rightarrow> counters \<Rightarrow> counters" where
  "bump k [] = []"
| "bump k ((k', n) # t) = (if k = k' then (k', Suc n) # t else (k', n) # bump k t)"

text \<open>The body of the loop over the contacts, with its two \<^verbatim>\<open>continue\<close>s.\<close>

definition count_contact :: "counters \<Rightarrow> contact \<Rightarrow> counters" where
  "count_contact patterns c =
     (if email c = [] \<or> first_name c = [] \<or> last_name c = [] then patterns
      else let local = toLowerCase (hd (split_on CHR ''@'' (email c)));
               f = toLowerCase (first_name c); l = toLowerCase (last_name c) in
      if f = [] \<or> l = [] then patterns
      else if local = f then bump ''first'' patterns
      else if local = f @ ''.'' @ l then bump ''first.last'' patterns
      else if local = f @ l then bump ''firstlast'' patterns
      else if local = hd f # l then bump ''flast'' patterns
      else if local = f @ ''_'' @ l then bump ''first_last'' patterns
      else if local = f @ [hd l] then bump ''firstl'' patterns
      else if local = l then bump ''last'' patterns
      else patterns)"

text \<open>The loop over the entries: \<^verbatim>\<open>if (count > bestCount) { best = pat; bestCount = count; }\<close>\<close>

fun best_loop :: "counters \<Rightarrow> string option \<times> nat \<Rightarrow> string option \<times> nat" where
  "best_loop [] acc = acc"
| "best_loop ((pat, count) # t) (best, bestCount) =
     best_loop t (if count > bestCount then (Some pat, count) else (best, bestCount))"

definition detectEmailPattern :: "contact list \<Rightarrow> string option" where
  "detectEmailPattern cs =
     (case best_loop (foldl count_contact patterns_init cs) (None, 0) of
        (best, bestCount) \<Rightarrow> if bestCount \<ge> 1 then best else None)"

definition generateEmail :: "string \<Rightarrow> string \<Rightarrow> string \<Rightarrow> string \<Rightarrow> string option" where
  "generateEmail pattern fname lname domain =
     (let f = filter is_az (toLowerCase fname); l = filter is_az (toLowerCase lname) in
      if f = [] \<or> l = [] then None
      else map_of
        [(''first'', f @ ''@'' @ domain),
         (''first.last'', f @ ''.'' @ l @ ''@'' @ domain),
         (''firstlast'', f @ l @ ''@'' @ domain),
         (''flast'', hd f # l @ ''@'' @ domain),
         (''first_last'', f @ ''_'' @ l @ ''@'' @ domain),
         (''firstl'', f @ [hd l] @ ''@'' @ domain),
         (''last'', l @ ''@'' @ domain)] pattern)"

text \<open>
  Two readings of the vote, to compare \<^const>\<open>detectEmailPattern\<close> with. Both use the
  candidates in enumeration order and the local part each one stands for, and let a
  contact take part when it has an email, a first and a last name.
\<close>

definition PATTERNS :: "string list" where
  "PATTERNS =
     [''first'', ''first.last'', ''firstlast'', ''flast'', ''first_last'', ''firstl'', ''last'']"

definition candidate_local :: "string \<Rightarrow> string \<Rightarrow> string \<Rightarrow> string" where
  "candidate_local p f l =
     (if p = ''first'' then f
      else if p = ''first.last'' then f @ ''.'' @ l
      else if p = ''firstlast'' then f @ l
      else if p = ''flast'' then hd f # l
      else if p = ''first_last'' then f @ ''_'' @ l
      else if p = ''firstl'' then f @ [hd l]
      else l)"

text \<open>The local part of the contact's address is exactly what candidate \<open>p\<close> stands for.\<close>

definition matches_candidate :: "contact \<Rightarrow> string \<Rightarrow> bool" where
  "matches_candidate c p \<longleftrightarrow>
     email c \<noteq> [] \<and> first_name c \<noteq> [] \<and> last_name c \<noteq> []
     \<and> toLowerCase (hd (split_on CHR ''@'' (email c)))
         = candidate_local p (toLowerCase (first_name c)) (toLowerCase (last_name c))"

text \<open>
  The claim's words: for each candidate, the number of contacts whose local part matches
  it exactly; the winner is the first candidate with the highest count, none when all
  counts are zero.
\<close>

definition exact_matches :: "contact list \<Rightarrow> string \<Rightarrow> nat" where
  "exact_matches cs p = length (filter (\<lambda>c. matches_candidate c p) cs)"

definition highest_exact_match :: "contact list \<Rightarrow> string option" where
  "highest_exact_match cs =
     (let top = Max (set (map (exact_matches cs) PATTERNS)) in
      if top = 0 then None else find (\<lambda>p. exact_matches cs p = top) PATTERNS)"

text \<open>
  One vote per contact: a contact votes for the first candidate, in enumeration order,
  that its local part matches; the winner is the first candidate with the most votes.
\<close>

definition first_match :: "contact \<Rightarrow> string option" where
  "first_match c = find (matches_candidate c) PATTERNS"

definition vote_count :: "contact list \<Rightarrow> string \<Rightarrow> nat" where
  "vote_count cs p = length (filter (\<lambda>c. first_match c = Some p) cs)"

definition vote_winner :: "contact list \<Rightarrow> string option" where
  "vote_winner cs =
     (let top = Max (set (map (vote_count cs) PATTERNS)) in
      if top = 0 then None else find (\<lambda>p. vote_count cs p = top) PATTERNS)"

text \<open>A contact whose local part matches more than one candidate.\<close>

definition ambiguous :: "contact \<Rightarrow> bool" where
  "ambiguous c \<longleftrightarrow> length (filter (matches_candidate c) PATTERNS) > 1"

subsection \<open>Mail-exchange verification\<close>

text \<open>
  \<^verbatim>\<open>dnsResolveMx\<close> is the environment: for a domain, the number of records it
  returns, or \<open>None\<close> when it throws. \<^verbatim>\<open>mxCache\<close> is a map from domains to answers.
\<close>

type_synonym dns = "string \<Rightarrow> nat option"
type_synonym mx_cache = "string \<rightharpoonup> bool"

definition verifyEmailMx :: "dns \<Rightarrow> mx_cache \<Rightarrow> string \<Rightarrow> bool \<times> mx_cache" where
  "verifyEmailMx resolve cache em =
     (case split_on CHR ''@'' em of
        _ # domain # _ \<Rightarrow>
          if domain = [] then (False, cache)
          else (case cache domain of
                  Some v \<Rightarrow> (v, cache)
                | None \<Rightarrow>
                    (case resolve domain of
                       Some n \<Rightarrow> (n > 0, cache(domain \<mapsto> n > 0))
                     | None \<Rightarrow> (False, cache(domain \<mapsto> False))))
      | _ \<Rightarrow> (False, cache))"

text \<open>The two branches of the verification loop's body.\<close>

definition mx_confidence :: "bool \<Rightarrow> string \<Rightarrow> string" where
  "mx_confidence mxValid conf =
     (if mxValid then
        (let c1 = (if conf = ''found'' then ''verified'' else conf) in
         if c1 = ''inferred'' then ''inferred_mx_ok'' else c1)
      else (if conf = ''inferred'' then ''inferred_no_mx'' else ''no_mx''))"

fun mx_loop :: "dns \<Rightarrow> mx_cache \<Rightarrow> contact list \<Rightarrow> contact list \<times> mx_cache" where
  "mx_loop resolve cache [] = ([], cache)"
| "mx_loop resolve cache (c # cs) =
     (case verifyEmailMx resolve cache (email c) of
        (mxValid, cache') \<Rightarrow>
          (case mx_loop resolve cache' cs of
             (cs', cache'') \<Rightarrow>
               (c\<lparr>confidence := mx_confidence mxValid (confidence c)\<rparr> # cs', cache'')))"

text \<open>
  Whether the domain of an address has mail-exchange records, and a cache that holds
  only answers the resolver gives.
\<close>

definition has_mx :: "dns \<Rightarrow> string \<Rightarrow> bool" where
  "has_mx resolve em =
     (case split_on CHR ''@'' em of
        _ # domain # _ \<Rightarrow>
          domain \<noteq> [] \<and> (case resolve domain of Some n \<Rightarrow> n > 0 | None \<Rightarrow> False)
      | _ \<Rightarrow> False)"

definition cache_agrees :: "dns \<Rightarrow> mx_cache \<Rightarrow> bool" where
  "cache_agrees resolve cache \<longleftrightarrow>
     (\<forall>d v. cache d = Some v \<longrightarrow>
        v = (case resolve d of Some n \<Rightarrow> n > 0 | None \<Rightarrow> False))"

subsection \<open>The contact list of \<^verbatim>\<open>enrichBusiness\<close>\<close>

text \<open>
  What the content extractor returns for one page, as far as contacts go, the person
  entries of \<^verbatim>\<open>namesWithoutEmails\<close>, and the registrant of a WHOIS answer. These come
  from the environment: the page fetcher, the HTML extractor and the RDAP client are
  outside the model.
\<close>

record person =
  p_first_name :: string
  p_last_name :: string
  p_title :: string
  p_phone :: string
  p_source_page :: string

record extraction =
  x_contacts :: "contact list"
  x_names :: "person list"

record registrant =
  reg_name :: string
  reg_email :: string
  reg_phone :: string

record enrich_state =
  allContacts :: "contact list"
  allEmails :: "string set"
  allNamesNoEmail :: "person list"

text \<open>
  \<^verbatim>\<open>for (const c of hr.contacts) { if (!allEmails.has(c.email)) { ... } }\<close>, then the
  names of the page.
\<close>

fun add_contacts :: "contact list \<Rightarrow> enrich_state \<Rightarrow> enrich_state" where
  "add_contacts [] st = st"
| "add_contacts (c # cs) st =
     add_contacts cs
       (if email c \<notin> allEmails st
        then st\<lparr>allContacts := allContacts st @ [c], allEmails := insert (email c) (allEmails st)\<rparr>
        else st)"

definition add_page :: "extraction \<Rightarrow> enrich_state \<Rightarrow> enrich_state" where
  "add_page pr st =
     (let st' = add_contacts (x_contacts pr) st
      in st'\<lparr>allNamesNoEmail := allNamesNoEmail st' @ x_names pr\<rparr>)"

text \<open>
  The loop over \<^verbatim>\<open>subPages.slice(1)\<close>; the list holds what fetching and extracting each
  page gives, \<open>None\<close> for a page that cannot be fetched. The loop stops after a page
  that brings the named contacts to five.
\<close>

fun subpages_loop :: "extraction option list \<Rightarrow> enrich_state \<Rightarrow> enrich_state" where
  "subpages_loop [] st = st"
| "subpages_loop (None # rs) st = subpages_loop rs st"
| "subpages_loop (Some pr # rs) st =
     (let st' = add_page pr st in
      if length (filter (\<lambda>c. first_name c \<noteq> []) (allContacts st')) \<ge> 5 then st'
      else subpages_loop rs st')"

definition whois_step :: "registrant option \<Rightarrow> enrich_state \<Rightarrow> enrich_state" where
  "whois_step whois st =
     (case whois of
        None \<Rightarrow> st
      | Some reg \<Rightarrow>
          if reg_email reg \<noteq> [] \<and> validEmail (reg_email reg)
             \<and> toLowerCase (reg_email reg) \<notin> allEmails st
          then let e = toLowerCase (reg_email reg) in
            st\<lparr>allEmails := insert e (allEmails st),
               allContacts := allContacts st @
                 [\<lparr>email = e, first_name = firstName (reg_name reg),
                   last_name = lastName (reg_name reg), title = ''Owner (WHOIS)'',
                   cphone = reg_phone reg, confidence = ''whois'',
                   source_page = ''WHOIS/RDAP''\<rparr>]\<rparr>
          else st)"

text \<open>The loop over \<^verbatim>\<open>allNamesNoEmail\<close> of the inference step.\<close>

fun infer_loop :: "string \<Rightarrow> string \<Rightarrow> person list \<Rightarrow> enrich_state \<Rightarrow> enrich_state" where
  "infer_loop pattern domain [] st = st"
| "infer_loop pattern domain (person # ps) st =
     infer_loop pattern domain ps
       (case generateEmail pattern (p_first_name person) (p_last_name person) domain of
          None \<Rightarrow> st
        | Some inferredEmail \<Rightarrow>
            if inferredEmail \<noteq> [] \<and> inferredEmail \<notin> allEmails st
            then st\<lparr>allEmails := insert inferredEmail (allEmails st),
                    allContacts := allContacts st @
                      [\<lparr>email = inferredEmail, first_name = p_first_name person,
                        last_name = p_last_name person, title = p_title person,
                        cphone = p_phone person, confidence = ''inferred'',
                        source_page = p_source_page person\<rparr>]\<rparr>
            else st)"

definition infer_step :: "string \<Rightarrow> enrich_state \<Rightarrow> enrich_state" where
  "infer_step domain st =
     (case detectEmailPattern (allContacts st) of
        None \<Rightarrow> st
      | Some pattern \<Rightarrow>
          if pattern \<noteq> [] \<and> length (allNamesNoEmail st) > 0
          then infer_loop pattern domain (allNamesNoEmail st) st
          else st)"

text \<open>
  The contacts gathered before verification: home page, subpages, WHOIS, inference.
  \<open>domain\<close> is the resolved URL without scheme, \<^verbatim>\<open>www.\<close> and path.
\<close>

definition gather_contacts ::
  "string \<Rightarrow> extraction \<Rightarrow> extraction option list \<Rightarrow> registrant option \<Rightarrow> enrich_state" where
  "gather_contacts baseUrl hr subs whois =
     (let domain = cut_path (strip_prefix ''www.'' (strip_scheme baseUrl));
          st0 = \<lparr>allContacts = [], allEmails = {}, allNamesNoEmail = []\<rparr>
      in infer_step domain (whois_step whois (subpages_loop subs (add_page hr st0))))"

text \<open>
  The field \<^verbatim>\<open>contacts\<close> of the record \<^verbatim>\<open>enrichBusiness(biz)\<close> returns, with the cache
  it leaves. \<open>resolved\<close> is the answer of \<^verbatim>\<open>resolveUrl\<close>, \<open>home\<close> the extraction of the
  home page (\<open>None\<close> when it cannot be fetched), \<open>subs\<close> and \<open>whois\<close> as above. Company
  facts, domain age and the statistics counters do not reach the contact list and are
  left out.
\<close>

definition enrichBusiness_contacts ::
  "dns \<Rightarrow> mx_cache \<Rightarrow> biz \<Rightarrow> string option \<Rightarrow> extraction option \<Rightarrow> extraction option list
     \<Rightarrow> registrant option \<Rightarrow> contact list \<times> mx_cache" where
  "enrichBusiness_contacts resolve cache b resolved home subs whois =
     (if website b = [] then ([], cache)
      else (case resolved of
              None \<Rightarrow> ([], cache)
            | Some baseUrl \<Rightarrow>
                if baseUrl = [] then ([], cache)
                else (case home of
                        None \<Rightarrow> ([], cache)
                      | Some hr \<Rightarrow>
                          mx_loop resolve cache
                            (allContacts (gather_contacts baseUrl hr subs whois)))))"

text \<open>
  The object literal the extractor pushes for an address it finds on a page:
  \<^verbatim>\<open>{ email, first_name, last_name, title, phone, confidence: 'found', source_page }\<close>.
\<close>

definition foundContact ::
  "string \<Rightarrow> string \<Rightarrow> string \<Rightarrow> string \<Rightarrow> string \<Rightarrow> string \<Rightarrow> contact" where
  "foundContact e f l t ph page =
     \<lparr>email = e, first_name = f, last_name = l, title = t, cphone = ph,
      confidence = ''found'', source_page = page\<rparr>"

text \<open>
  The invariant that \<^verbatim>\<open>allEmails\<close> guards: the addresses of \<^verbatim>\<open>allContacts\<close> are
  pairwise distinct and all in the set.
\<close>

definition emails_ok :: "enrich_state \<Rightarrow> bool" where
  "emails_ok st \<longleftrightarrow>
     distinct (map email (allContacts st)) \<and> set (map email (allContacts st)) \<subseteq> allEmails st"

section \<open>Orchestrator\<close>

subsection \<open>Discovery adapters and the Yelp breaker\<close>

datatype source_id = YP | Yelp | BBB | GMaps

text \<open>
  What one call of \<^verbatim>\<open>navigateAndWait\<close> and the parsing after it give: an exception, no
  usable page (\<^verbatim>\<open>null\<close>, or for Yelp fewer than 2000 characters), or a page with the
  flag of an anti-bot challenge and the records the selectors find on it.
\<close>

datatype response = Throws | NoHtml | Html bool "biz list"

text \<open>
  The module variable \<^verbatim>\<open>_yelpConsecutiveFails\<close>, the counter \<^verbatim>\<open>STATS.yelp.skipped\<close>, and
  the number of network calls made to each source.
\<close>

record net_state =
  yelpConsecutiveFails :: nat
  yelp_skipped :: nat
  calls :: "source_id \<Rightarrow> nat"

definition called :: "source_id \<Rightarrow> net_state \<Rightarrow> net_state" where
  "called src n = n\<lparr>calls := (calls n)(src := Suc (calls n src))\<rparr>"

text \<open>
  \<^verbatim>\<open>discoverYelpSingle\<close>. The result is \<open>None\<close> when the call throws, which the
  \<^verbatim>\<open>catch\<close> of \<^verbatim>\<open>run\<close> turns into \<^verbatim>\<open>continue\<close>.
\<close>

definition discoverYelpSingle :: "response \<Rightarrow> net_state \<Rightarrow> biz list option \<times> net_state" where
  "discoverYelpSingle r n =
     (if yelpConsecutiveFails n \<ge> 5 then (Some [], n\<lparr>yelp_skipped := Suc (yelp_skipped n)\<rparr>)
      else let n' = called Yelp n in
        (case r of
           Throws \<Rightarrow> (None, n')
         | NoHtml \<Rightarrow> (Some [], n'\<lparr>yelpConsecutiveFails := Suc (yelpConsecutiveFails n')\<rparr>)
         | Html challenge bs \<Rightarrow>
             if challenge
             then (Some [], n'\<lparr>yelpConsecutiveFails := Suc (yelpConsecutiveFails n')\<rparr>)
             else if length bs > 0 then (Some bs, n'\<lparr>yelpConsecutiveFails := 0\<rparr>)
             else (Some bs, n'\<lparr>yelpConsecutiveFails := Suc (yelpConsecutiveFails n')\<rparr>)))"

text \<open>\<^verbatim>\<open>discoverBBBSingle\<close> and \<^verbatim>\<open>discoverGMapsSingle\<close>: one call, no counter.\<close>

definition discoverPlainSingle ::
  "source_id \<Rightarrow> response \<Rightarrow> net_state \<Rightarrow> biz list option \<times> net_state" where
  "discoverPlainSingle src r n =
     (let n' = called src n in
      case r of
        Throws \<Rightarrow> (None, n')
      | NoHtml \<Rightarrow> (Some [], n')
      | Html challenge bs \<Rightarrow> (Some bs, n'))"

text \<open>
  \<^verbatim>\<open>discoverYPSingle\<close>: up to three result pages; the loop stops at a page that is
  missing, is a challenge or adds nothing.
\<close>

fun yp_pages ::
  "nat list \<Rightarrow> (nat \<Rightarrow> response) \<Rightarrow> biz list \<Rightarrow> net_state \<Rightarrow> biz list option \<times> net_state" where
  "yp_pages [] resp acc n = (Some acc, n)"
| "yp_pages (pg # pgs) resp acc n =
     (let n' = called YP n in
      case resp pg of
        Throws \<Rightarrow> (None, n')
      | NoHtml \<Rightarrow> (Some acc, n')
      | Html challenge bs \<Rightarrow>
          if challenge then (Some acc, n')
          else if bs = [] then (Some acc, n')
          else yp_pages pgs resp (acc @ bs) n')"

text \<open>
  The \<^verbatim>\<open>switch (src)\<close> of \<^verbatim>\<open>run\<close>. \<open>resp k\<close> is what the \<open>k\<close>-th call of this
  work unit meets.
\<close>

fun discoverSingle ::
  "source_id \<Rightarrow> (nat \<Rightarrow> response) \<Rightarrow> net_state \<Rightarrow> biz list option \<times> net_state" where
  "discoverSingle YP resp n = yp_pages [0, 1, 2] resp [] n"
| "discoverSingle Yelp resp n = discoverYelpSingle (resp 0) n"
| "discoverSingle BBB resp n = discoverPlainSingle BBB (resp 0) n"
| "discoverSingle GMaps resp n = discoverPlainSingle GMaps (resp 0) n"

text \<open>A sequence of work units, as the discovery loop runs them one after the other.\<close>

fun run_units ::
  "(source_id \<times> (nat \<Rightarrow> response)) list \<Rightarrow> net_state \<Rightarrow> biz list option list \<times> net_state" where
  "run_units [] n = ([], n)"
| "run_units ((src, resp) # us) n =
     (case discoverSingle src resp n of
        (out, n') \<Rightarrow> (case run_units us n' of (outs, n'') \<Rightarrow> (out # outs, n'')))"

text \<open>A response that \<^verbatim>\<open>discoverYelpSingle\<close> counts as a failure.\<close>

fun yelp_failure :: "response \<Rightarrow> bool" where
  "yelp_failure Throws = False"
| "yelp_failure NoHtml = True"
| "yelp_failure (Html challenge bs) = (challenge \<or> bs = [])"

subsection \<open>Global deduplication and checkpoints\<close>

definition dedupKey :: "biz \<Rightarrow> string" where
  "dedupKey b =
     filter (\<lambda>c. is_az c \<or> is_digit c) (toLowerCase (company_name b)) @ ''|''
     @ filter is_az (toLowerCase (city b)) @ ''|''
     @ filter is_az (toLowerCase (state b))"

text \<open>
  The variables of \<^verbatim>\<open>run\<close> that discovery reads and writes. \<^verbatim>\<open>catCounts[c] || 0\<close> and
  \<^verbatim>\<open>catWorkIdx[c] || 0\<close> are total functions with 0 for a missing key. The set
  \<^verbatim>\<open>enrichedSet\<close> is written and never read, and is left out.
\<close>

record run_state =
  allBiz :: "biz list"
  globalSeen :: "string set"
  catCounts :: "string \<Rightarrow> nat"
  catWorkIdx :: "string \<Rightarrow> nat"
  chunkBiz :: "biz list"
  net :: net_state

text \<open>
  The document \<^verbatim>\<open>saveState\<close> writes, \<^verbatim>\<open>{ phase, allBiz, catCounts, catWorkIdx }\<close>, as
  \<^verbatim>\<open>loadState\<close> reads it back: JSON stores the strings and numbers unchanged.
\<close>

record checkpoint =
  s_allBiz :: "biz list"
  s_catCounts :: "string \<Rightarrow> nat"
  s_catWorkIdx :: "string \<Rightarrow> nat"

definition saveState :: "run_state \<Rightarrow> checkpoint" where
  "saveState st =
     \<lparr>s_allBiz = allBiz st, s_catCounts = catCounts st, s_catWorkIdx = catWorkIdx st\<rparr>"

text \<open>The branch \<^verbatim>\<open>if (saved && !opts.fresh)\<close> at the start of \<^verbatim>\<open>run\<close>.\<close>

definition resume :: "checkpoint \<Rightarrow> net_state \<Rightarrow> run_state" where
  "resume saved n =
     \<lparr>allBiz = s_allBiz saved,
      globalSeen = foldl (\<lambda>seen b. insert (dedupKey b) seen) {} (s_allBiz saved),
      catCounts = s_catCounts saved,
      catWorkIdx = s_catWorkIdx saved,
      chunkBiz = [],
      net = n\<rparr>"

text \<open>
  The loop \<^verbatim>\<open>for (const biz of results)\<close>: a record whose key is new is tagged with the
  state key and pushed on \<^verbatim>\<open>allBiz\<close> and \<^verbatim>\<open>chunkBiz\<close>; the loop breaks at the quota.
\<close>

fun accept_loop :: "nat \<Rightarrow> string \<Rightarrow> string \<Rightarrow> biz list \<Rightarrow> run_state \<Rightarrow> run_state" where
  "accept_loop maxPerCat cat stKey [] st = st"
| "accept_loop maxPerCat cat stKey (b # results) st =
     (let key = dedupKey b in
      if key \<in> globalSeen st then accept_loop maxPerCat cat stKey results st
      else let b' = b\<lparr>stateKey := Some stKey\<rparr>;
               st' = st\<lparr>globalSeen := insert key (globalSeen st),
                        allBiz := allBiz st @ [b'],
                        chunkBiz := chunkBiz st @ [b'],
                        catCounts := (catCounts st)(cat := catCounts st cat + 1)\<rparr>
           in if catCounts st' cat \<ge> maxPerCat then st'
              else accept_loop maxPerCat cat stKey results st')"

text \<open>
  The loop over the work units of one category turn, from the cursor on, while the chunk
  is not full. A unit is the stop flag seen at its start, its state key, its source and
  what its calls meet.
\<close>

type_synonym work_unit = "bool \<times> string \<times> source_id \<times> (nat \<Rightarrow> response)"

fun discover_loop ::
  "nat \<Rightarrow> nat \<Rightarrow> string \<Rightarrow> work_unit list \<Rightarrow> run_state \<Rightarrow> run_state" where
  "discover_loop chunkSize maxPerCat cat [] st = st"
| "discover_loop chunkSize maxPerCat cat ((stopped, stKey, src, resp) # units) st =
     (if \<not> length (chunkBiz st) < chunkSize then st
      else if stopped then st
      else let st1 = st\<lparr>catWorkIdx := (catWorkIdx st)(cat := Suc (catWorkIdx st cat))\<rparr> in
        (case discoverSingle src resp (net st1) of
           (None, n') \<Rightarrow> discover_loop chunkSize maxPerCat cat units (st1\<lparr>net := n'\<rparr>)
         | (Some results, n') \<Rightarrow>
             let st2 = accept_loop maxPerCat cat stKey results (st1\<lparr>net := n'\<rparr>) in
             if catCounts st2 cat \<ge> maxPerCat then st2
             else discover_loop chunkSize maxPerCat cat units st2))"

text \<open>
  Discovery replayed over any number of category turns; each turn starts with an empty
  chunk.
\<close>

definition discover_turn ::
  "nat \<Rightarrow> nat \<Rightarrow> run_state \<Rightarrow> string \<times> work_unit list \<Rightarrow> run_state" where
  "discover_turn chunkSize maxPerCat st turn =
     discover_loop chunkSize maxPerCat (fst turn) (snd turn) (st\<lparr>chunkBiz := []\<rparr>)"

definition replay ::
  "nat \<Rightarrow> nat \<Rightarrow> (string \<times> work_unit list) list \<Rightarrow> run_state \<Rightarrow> run_state" where
  "replay chunkSize maxPerCat turns st = foldl (discover_turn chunkSize maxPerCat) st turns"

text \<open>The values at the start of a process and of a fresh \<^verbatim>\<open>run\<close>.\<close>

definition net_init :: net_state where
  "net_init = \<lparr>yelpConsecutiveFails = 0, yelp_skipped = 0, calls = (\<lambda>src. 0)\<rparr>"

definition fresh_start :: run_state where
  "fresh_start =
     \<lparr>allBiz = [], globalSeen = {}, catCounts = (\<lambda>c. 0), catWorkIdx = (\<lambda>c. 0),
      chunkBiz = [], net = net_init\<rparr>"

text \<open>
  What discovery may do to the entity list: append records whose keys were not in the
  seen-set, and let the seen-set grow.
\<close>

definition extends_fresh :: "run_state \<Rightarrow> run_state \<Rightarrow> bool" where
  "extends_fresh st st' \<longleftrightarrow>
     (\<exists>new. allBiz st' = allBiz st @ new \<and> (\<forall>b \<in> set new. dedupKey b \<notin> globalSeen st))
     \<and> globalSeen st \<subseteq> globalSeen st'"

subsection \<open>Output rows and the sink\<close>

type_synonym row = "string list"

text \<open>The table \<^verbatim>\<open>STATES\<close>: key, name and tab of each state.\<close>

definition STATES :: "(string \<times> string \<times> string) list" where
  "STATES =
     [(''AZ'', ''Arizona'', ''Arizona''), (''NV'', ''Nevada'', ''Nevada''),
      (''OH'', ''Ohio'', ''Ohio''), (''ID'', ''Idaho'', ''Idaho''),
      (''WA'', ''Washington'', ''Washington'')]"

definition guessStateTab :: "biz \<Rightarrow> string" where
  "guessStateTab b =
     (case find (\<lambda>(k, name, tab). toLowerCase name = toLowerCase (state b)) STATES of
        Some (k, name, tab) \<Rightarrow> tab
      | None \<Rightarrow> ''Other'')"

text \<open>\<^verbatim>\<open>b.stateKey ? STATES[b.stateKey]?.tab : guessStateTab(b)\<close>\<close>

definition tab_for :: "biz \<Rightarrow> string option" where
  "tab_for b =
     (case stateKey b of
        None \<Rightarrow> Some (guessStateTab b)
      | Some k \<Rightarrow>
          if k = [] then Some (guessStateTab b)
          else map_option snd (map_of STATES k))"

definition has_tab :: "biz \<Rightarrow> bool" where
  "has_tab b = (case tab_for b of None \<Rightarrow> False | Some t \<Rightarrow> t \<noteq> [])"

text \<open>\<^verbatim>\<open>ws.join(sep)\<close>\<close>

fun join_with :: "string \<Rightarrow> string list \<Rightarrow> string" where
  "join_with sep [] = []"
| "join_with sep [w] = w"
| "join_with sep (w # ws) = w @ sep @ join_with sep ws"

text \<open>\<^verbatim>\<open>toRows\<close>; \<open>today\<close> is the date of the call.\<close>

definition biz_rows :: "string \<Rightarrow> biz \<Rightarrow> row list" where
  "biz_rows today b =
     (let co = company_name b;
          loc = join_with '', '' (filter (\<lambda>s. s \<noteq> []) [city b, state b]);
          web = website b; ph = phone b;
          src = join_with '', ''
                  (filter (\<lambda>s. s \<noteq> [])
                     (case sources b of None \<Rightarrow> [source b] | Some ss \<Rightarrow> ss))
      in case contacts b of
           Some (c # cs) \<Rightarrow>
             map (\<lambda>c. [first_name c, last_name c, email c, title c, co, loc, web,
                        (if cphone c \<noteq> [] then cphone c else ph),
                        facebook b, instagram b, linkedin b, twitter b, src,
                        (if confidence c \<noteq> [] then confidence c else ''found''),
                        age_label b, year_founded b, industry b, today]) (c # cs)
         | _ \<Rightarrow>
             [[[], [], [], [], co, loc, web, ph, facebook b, instagram b, linkedin b,
               twitter b, src, [], age_label b, year_founded b, industry b, today]])"

definition toRows :: "string \<Rightarrow> biz list \<Rightarrow> row list" where
  "toRows today bizList = concat (map (biz_rows today) bizList)"

text \<open>
  What happens at the sink and at the enrichment pipeline, in the order it happens: an
  append call with its tab, its rows and whether the sink accepted it, or a call of
  \<^verbatim>\<open>enrichBusiness\<close>.
\<close>

datatype event = SinkAppend string "row list" bool | EnrichCall biz

text \<open>
  The module variable \<^verbatim>\<open>rowBuffer\<close>, the number of append calls made and the events so
  far. \<^verbatim>\<open>sheetsApi\<close> is set: \<^verbatim>\<open>run\<close> exits when authentication fails.
\<close>

record sheet_state =
  rowBuffer :: "row list"
  appends :: nat
  events :: "event list"

text \<open>
  \<^verbatim>\<open>try { await append(tab, rowBuffer); rowBuffer = []; } catch { ... }\<close>; the sink
  accepts the \<open>k\<close>-th call when \<open>accepts k\<close> holds, and throws otherwise.
\<close>

definition sink_append :: "(nat \<Rightarrow> bool) \<Rightarrow> string \<Rightarrow> sheet_state \<Rightarrow> sheet_state" where
  "sink_append accepts tab st =
     (let ok = accepts (appends st) in
      st\<lparr>rowBuffer := (if ok then [] else rowBuffer st),
         appends := Suc (appends st),
         events := events st @ [SinkAppend tab (rowBuffer st) ok]\<rparr>)"

definition batchSize :: nat where
  "batchSize = 10"

definition batchPushRows ::
  "(nat \<Rightarrow> bool) \<Rightarrow> string \<Rightarrow> string \<Rightarrow> biz list \<Rightarrow> sheet_state \<Rightarrow> sheet_state" where
  "batchPushRows accepts today tab bizList st =
     (let rows = toRows today bizList in
      if rows = [] then st
      else let st' = st\<lparr>rowBuffer := rowBuffer st @ rows\<rparr> in
        if length (rowBuffer st') \<ge> batchSize then sink_append accepts tab st' else st')"

definition flushRows :: "(nat \<Rightarrow> bool) \<Rightarrow> string \<Rightarrow> sheet_state \<Rightarrow> sheet_state" where
  "flushRows accepts tab st = (if rowBuffer st = [] then st else sink_append accepts tab st)"

text \<open>\<^verbatim>\<open>const tab = ...; if (tab) await batchPushRows(tab, [b]);\<close>\<close>

definition push_biz :: "(nat \<Rightarrow> bool) \<Rightarrow> string \<Rightarrow> sheet_state \<Rightarrow> biz \<Rightarrow> sheet_state" where
  "push_biz accepts today st b =
     (case tab_for b of
        None \<Rightarrow> st
      | Some tab \<Rightarrow> if tab = [] then st else batchPushRows accepts today tab [b] st)"

text \<open>\<^verbatim>\<open>for (const k of targetStates) await flushRows(STATES[k].tab);\<close>\<close>

definition flush_all :: "(nat \<Rightarrow> bool) \<Rightarrow> string list \<Rightarrow> sheet_state \<Rightarrow> sheet_state" where
  "flush_all accepts tabs st = foldl (\<lambda>st tab. flushRows accepts tab st) st tabs"

text \<open>The block \<^verbatim>\<open>if (noSites.length) { ... }\<close>.\<close>

definition push_noSites ::
  "(nat \<Rightarrow> bool) \<Rightarrow> string \<Rightarrow> string list \<Rightarrow> biz list \<Rightarrow> sheet_state \<Rightarrow> sheet_state" where
  "push_noSites accepts today tabs noSites st =
     (if noSites = [] then st
      else flush_all accepts tabs (foldl (push_biz accepts today) st noSites))"

text \<open>
  What \<^verbatim>\<open>await enrichBusiness(b)\<close> does: it returns the enriched record, or it throws and
  leaves \<open>b\<close> as it was at that moment.
\<close>

datatype enrich_result = Enriched biz | Failed biz

text \<open>
  The loop over \<^verbatim>\<open>withSites\<close>. \<open>stopped i\<close> is the stop flag seen at iteration \<open>i\<close>;
  \<open>enrich\<close> is the enrichment as the environment answers it. The flag of the result
  says that the loop returned from \<^verbatim>\<open>run\<close>. The replacement of the entity in
  \<^verbatim>\<open>allBiz\<close> by the enriched record does not touch the sink and is left out.
\<close>

fun enrich_loop ::
  "(nat \<Rightarrow> bool) \<Rightarrow> (nat \<Rightarrow> bool) \<Rightarrow> (biz \<Rightarrow> enrich_result) \<Rightarrow> string \<Rightarrow> string list \<Rightarrow> nat
     \<Rightarrow> biz list \<Rightarrow> sheet_state \<Rightarrow> sheet_state \<times> bool" where
  "enrich_loop accepts stopped enrich today tabs i [] st = (st, False)"
| "enrich_loop accepts stopped enrich today tabs i (b # bs) st =
     (if stopped i then (flush_all accepts tabs st, True)
      else let st' = st\<lparr>events := events st @ [EnrichCall b]\<rparr> in
        enrich_loop accepts stopped enrich today tabs (Suc i) bs
          (case enrich b of
             Enriched eb \<Rightarrow> push_biz accepts today st' eb
           | Failed b' \<Rightarrow> push_biz accepts today st' b'))"

text \<open>Step 3 of a category turn, on the chunk as website resolution left it.\<close>

definition chunk_step3 ::
  "(nat \<Rightarrow> bool) \<Rightarrow> (nat \<Rightarrow> bool) \<Rightarrow> (biz \<Rightarrow> enrich_result) \<Rightarrow> string \<Rightarrow> string list
     \<Rightarrow> biz list \<Rightarrow> sheet_state \<Rightarrow> sheet_state" where
  "chunk_step3 accepts stopped enrich today tabs chunk st =
     (let withSites = filter (\<lambda>b. website b \<noteq> []) chunk;
          noSites = filter (\<lambda>b. website b = []) chunk;
          st1 = push_noSites accepts today tabs noSites st
      in case enrich_loop accepts stopped enrich today tabs 0 withSites st1 of
           (st2, True) \<Rightarrow> st2
         | (st2, False) \<Rightarrow> flush_all accepts tabs st2)"

text \<open>Reading the events.\<close>

fun is_enrich :: "event \<Rightarrow> bool" where
  "is_enrich (EnrichCall b) = True"
| "is_enrich (SinkAppend tab rows ok) = False"

fun sent_rows :: "event \<Rightarrow> row list" where
  "sent_rows (SinkAppend tab rows ok) = rows"
| "sent_rows (EnrichCall b) = []"

fun accepted_rows :: "event list \<Rightarrow> row list" where
  "accepted_rows [] = []"
| "accepted_rows (SinkAppend tab rows ok # es) = (if ok then rows else []) @ accepted_rows es"
| "accepted_rows (EnrichCall b # es) = accepted_rows es"

text \<open>
  A phase of sink work without enrichment: it adds events \<open>pre\<close>, none of them a call of
  the enrichment, hands \<open>rows\<close> to the buffer, and every row of the old buffer and of
  \<open>rows\<close> is still buffered or was sent in \<open>pre\<close>.
\<close>

definition sink_phase :: "sheet_state \<Rightarrow> sheet_state \<Rightarrow> row list \<Rightarrow> event list \<Rightarrow> bool" where
  "sink_phase st st' rows pre \<longleftrightarrow>
     events st' = events st @ pre
     \<and> list_all (\<lambda>e. \<not> is_enrich e) pre
     \<and> accepted_rows pre @ rowBuffer st' = rowBuffer st @ rows
     \<and> list_all (\<lambda>r. r \<in> set (rowBuffer st') \<or> list_ex (\<lambda>e. r \<in> set (sent_rows e)) pre)
         (rowBuffer st @ rows)"

text \<open>A phase that may call the enrichment: the entities \<open>bs\<close>, in this order.\<close>

definition enrich_phase :: "sheet_state \<Rightarrow> sheet_state \<Rightarrow> biz list \<Rightarrow> event list \<Rightarrow> bool" where
  "enrich_phase st st' bs post \<longleftrightarrow>
     events st' = events st @ post
     \<and> (\<exists>enr. accepted_rows post @ rowBuffer st' = rowBuffer st @ enr)
     \<and> filter is_enrich post = map EnrichCall bs"


text \<open>
  The scenario of the specification: a chunk of three entities without a website and two
  with one, all tagged for Arizona, and an enrichment that finds one verified contact.
\<close>

definition scenario_chunk :: "biz list" where
  "scenario_chunk =
     map (\<lambda>b. b\<lparr>stateKey := Some ''AZ''\<rparr>)
       [rawRecord ''yelp'' ''Sunrise Bakery'' [] [] ''Phoenix'' ''Arizona'' [] ''bakery'',
        rawRecord ''yellowpages'' ''Desert Bread'' [] [] ''Tempe'' ''Arizona''
          ''https://desertbread.com'' ''bakery'',
        rawRecord ''bbb'' ''Mesa Muffins'' [] [] ''Mesa'' ''Arizona'' [] ''bakery'',
        rawRecord ''yellowpages'' ''Cactus Cakes'' [] [] ''Tucson'' ''Arizona''
          ''https://cactuscakes.com'' ''bakery'',
        rawRecord ''google_maps'' ''Yuma Yeast'' [] [] ''Yuma'' ''Arizona'' [] ''bakery'']"

definition scenario_enriched :: "biz \<Rightarrow> biz" where
  "scenario_enriched b =
     b\<lparr>contacts :=
       Some [(foundContact (''owner@'' @ drop 8 (website b)) ''Ann'' ''Lee'' ''Owner'' []
                (website b))\<lparr>confidence := ''verified''\<rparr>]\<rparr>"

definition sheet_init :: sheet_state where
  "sheet_init = \<lparr>rowBuffer = [], appends = 0, events = []\<rparr>"



section \<open>Properties of entity resolution\<close>

lemma length_normPhone: "length (normPhone p) \<le> 10"
  by (simp add: normPhone_def Let_def)

lemma normDomain_Nil: "normDomain [] = []"
  by (simp add: normDomain_def strip_scheme_def strip_prefix_def startsWith_def
        toLowerCase_def trim_def)

lemma normPhone_Nil: "normPhone [] = []"
  by (simp add: normPhone_def)

lemma toLowerCase_Nil_iff: "toLowerCase s = [] \<longleftrightarrow> s = []"
  by (simp add: toLowerCase_def)

text \<open>The cascade of \<^verbatim>\<open>sameEntity\<close> as one disjunction of its four rules.\<close>

lemma sameEntity_iff:
  "sameEntity a b \<longleftrightarrow>
     (normDomain (website a) \<noteq> [] \<and> normDomain (website a) = normDomain (website b))
   \<or> (length (normPhone (phone a)) = 10 \<and> normPhone (phone a) = normPhone (phone b))
   \<or> js_gt (dice (normName (company_name a)) (normName (company_name b))) (85 / 100)
   \<or> (js_gt (dice (normName (company_name a)) (normName (company_name b))) (7 / 10)
        \<and> toLowerCase (city a) = toLowerCase (city b))"
  using length_normPhone [of "phone a"]
  by (auto simp: sameEntity_def Let_def)

lemma sameEntity_sources [simp]:
  "sameEntity (u\<lparr>sources := x\<rparr>) b = sameEntity u b"
  "sameEntity a (b\<lparr>sources := x\<rparr>) = sameEntity a b"
  by (simp_all add: sameEntity_def)

lemma dedupe_snoc: "dedupe (xs @ [b]) = dedupe_step (dedupe xs) b"
  by (simp add: dedupe_def)

lemma dedupe_pair: "dedupe [a, b] = dedupe_step (dedupe_step [] a) b"
  by (simp add: dedupe_def)

text \<open>
  C1 (as amended). For two records with no common non-empty website domain, no equal
  ten-digit phone and different localities, \<^verbatim>\<open>sameEntity\<close> holds exactly when the
  bigram Dice similarity of the normalised names is strictly greater than 0.85. At
  exactly 0.85, as at 0.849, the two records are different entities.
\<close>

theorem sameEntity_name_threshold:
  assumes "\<not> (normDomain (website a) \<noteq> [] \<and> normDomain (website a) = normDomain (website b))"
    and "\<not> (length (normPhone (phone a)) = 10 \<and> normPhone (phone a) = normPhone (phone b))"
    and "toLowerCase (city a) \<noteq> toLowerCase (city b)"
  shows "sameEntity a b \<longleftrightarrow>
           js_gt (dice (normName (company_name a)) (normName (company_name b))) (85 / 100)"
  using assms by (auto simp: sameEntity_iff)

text \<open>
  The theorem at ``Sunrise Bakery LLC'' in Phoenix and ``Sunrise Bakery'' in Tucson: the
  names normalise to the same string, the similarity is 1 and the records match.
\<close>

theorem sameEntity_name_threshold_witness:
  "sameEntity
     (rawRecord ''yelp'' ''Sunrise Bakery LLC'' [] [] ''Phoenix'' ''Arizona'' [] ''bakery'')
     (rawRecord ''bbb'' ''Sunrise Bakery'' [] [] ''Tucson'' ''Arizona'' [] ''bakery'')"
  (is "sameEntity ?a ?b")
proof -
  have d: "\<not> (normDomain (website ?a) \<noteq> [] \<and> normDomain (website ?a) = normDomain (website ?b))"
    by code_simp
  have p: "\<not> (length (normPhone (phone ?a)) = 10 \<and> normPhone (phone ?a) = normPhone (phone ?b))"
    by code_simp
  have c: "toLowerCase (city ?a) \<noteq> toLowerCase (city ?b)"
    by code_simp
  have s: "js_gt (dice (normName (company_name ?a)) (normName (company_name ?b))) (85 / 100)"
    by code_simp
  show ?thesis
    using sameEntity_name_threshold [OF d p c] s by blast
qed

text \<open>
  C1 as stated fails: these two names have 17 and 23 bigrams, 17 of them shared, so
  the similarity is \<open>34/40 = 0.85\<close> exactly; the records share no other signal, and
  \<^verbatim>\<open>sameEntity\<close> answers false.
\<close>

theorem sameEntity_at_085_counterexample:
  "dice (normName ''abcdefghijklmnopqr'') (normName ''abcdefghijklmnopqrstuvwx'')
     = Some (85 / 100)
   \<and> \<not> sameEntity
       (rawRecord ''yelp'' ''abcdefghijklmnopqr'' [] [] ''Phoenix'' ''Arizona'' [] ''bakery'')
       (rawRecord ''bbb'' ''abcdefghijklmnopqrstuvwx'' [] [] ''Tucson'' ''Arizona'' [] ''bakery'')"
  by code_simp

text \<open>
  C2 (as amended). Two records whose normalised phones are equal and ten digits long
  match under \<^verbatim>\<open>sameEntity\<close> whatever their names, websites and localities are, and
  \<^verbatim>\<open>dedupe\<close> of the pair yields one entity.
\<close>

theorem sameEntity_equal_phone:
  assumes "normPhone (phone a) = normPhone (phone b)"
    and "length (normPhone (phone a)) = 10"
  shows "sameEntity a b \<and> length (dedupe [a, b]) = 1"
proof -
  have m: "sameEntity a b"
    using assms by (simp add: sameEntity_iff)
  then show ?thesis
    by (simp add: dedupe_pair dedupe_step_def)
qed

theorem sameEntity_equal_phone_witness:
  "sameEntity
     (rawRecord ''yelp'' ''Sunrise Bakery'' ''(555) 111-2222'' [] ''Phoenix'' ''Arizona'' []
        ''bakery'')
     (rawRecord ''bbb'' ''Desert Plumbing'' ''+1 555.111.2222'' [] ''Tucson'' ''Arizona''
        ''desertplumbing.com'' ''plumber'')
   \<and> length (dedupe
       [rawRecord ''yelp'' ''Sunrise Bakery'' ''(555) 111-2222'' [] ''Phoenix'' ''Arizona'' []
          ''bakery'',
        rawRecord ''bbb'' ''Desert Plumbing'' ''+1 555.111.2222'' [] ''Tucson'' ''Arizona''
          ''desertplumbing.com'' ''plumber'']) = 1"
  (is "sameEntity ?a ?b \<and> _")
proof -
  have e: "normPhone (phone ?a) = normPhone (phone ?b)"
    by code_simp
  have l: "length (normPhone (phone ?a)) = 10"
    by code_simp
  show ?thesis
    by (rule sameEntity_equal_phone [OF e l])
qed

text \<open>
  C2 as stated fails: the seven-digit phone ``555-1234'' normalises to the same
  non-empty string on both records, yet the guard \<^verbatim>\<open>pa.length >= 10\<close> keeps the phone
  rule from firing and the two records stay two entities.
\<close>

theorem sameEntity_short_phone_counterexample:
  "normPhone ''555-1234'' = normPhone ''555 1234'' \<and> normPhone ''555-1234'' \<noteq> []
   \<and> \<not> sameEntity
       (rawRecord ''yelp'' ''Sunrise Bakery'' ''555-1234'' [] ''Phoenix'' ''Arizona'' [] ''bakery'')
       (rawRecord ''bbb'' ''Desert Plumbing'' ''555 1234'' [] ''Tucson'' ''Arizona'' []
          ''plumber'')
   \<and> length (dedupe
       [rawRecord ''yelp'' ''Sunrise Bakery'' ''555-1234'' [] ''Phoenix'' ''Arizona'' [] ''bakery'',
        rawRecord ''bbb'' ''Desert Plumbing'' ''555 1234'' [] ''Tucson'' ''Arizona'' []
          ''plumber'']) = 2"
  by code_simp

subsection \<open>The same record twice\<close>

lemma dice_refl: "n \<noteq> [] \<Longrightarrow> dice n n = Some 1"
  by (simp add: dice_def)

lemma dice_Nil_right: "dice n [] = Some 0"
  by (simp add: dice_def)

lemma self_matching_sameEntity: "self_matching r \<Longrightarrow> sameEntity r r"
  by (auto simp: self_matching_def sameEntity_iff dice_refl)

lemma not_self_matching_no_match: "\<not> self_matching r \<Longrightarrow> \<not> sameEntity u r"
  by (auto simp: self_matching_def sameEntity_iff dice_Nil_right)

lemma backfill_idem: "backfill (backfill old new) new = backfill old new"
  by (simp add: backfill_def)

lemma backfill_same: "backfill x x = x"
  by (simp add: backfill_def)

lemma normDomain_nonempty: "normDomain w \<noteq> [] \<Longrightarrow> w \<noteq> []"
  using normDomain_Nil by auto

lemma normPhone_nonempty: "length (normPhone p) = 10 \<Longrightarrow> p \<noteq> []"
  using normPhone_Nil by auto

text \<open>Backfilling from \<open>b\<close> never removes the signal on which \<open>b\<close> matched.\<close>

lemma sameEntity_merge_into: "sameEntity u b \<Longrightarrow> sameEntity (merge_into u b) b"
  unfolding sameEntity_iff
  by (auto simp: merge_into_def backfill_def toLowerCase_Nil_iff normDomain_Nil normPhone_Nil
           dest: normDomain_nonempty normPhone_nonempty)

lemma merge_into_idem: "merge_into (merge_into u b) b = merge_into u b"
  by (simp add: merge_into_def backfill_idem add_source_def Let_def)

lemma match_first_again:
  "match_first us b = (us', True) \<Longrightarrow> match_first us' b = (us', True)"
proof (induction us arbitrary: us')
  case Nil
  then show ?case by simp
next
  case (Cons u us)
  show ?case
  proof (cases "sameEntity u b")
    case True
    with Cons.prems have "us' = merge_into u b # us" by simp
    with True show ?thesis
      by (simp add: sameEntity_merge_into merge_into_idem)
  next
    case False
    with Cons.prems obtain vs where vs: "match_first us b = (vs, True)" "us' = u # vs"
      by (auto split: prod.splits)
    with Cons.IH [OF vs(1)] False show ?thesis by simp
  qed
qed

lemma match_first_unmatched: "match_first us b = (us', False) \<Longrightarrow> us' = us"
  by (induction us arbitrary: us') (auto split: if_splits prod.splits)

lemma match_first_snoc:
  "match_first us b = (us, False) \<Longrightarrow>
   match_first (us @ [v]) b =
     (if sameEntity v b then (us @ [merge_into v b], True) else (us @ [v], False))"
  by (induction us) (auto split: if_splits prod.splits)

lemma merge_into_fresh:
  "merge_into (r\<lparr>sources := Some [source r]\<rparr>) r = r\<lparr>sources := Some [source r]\<rparr>"
  by (simp add: merge_into_def backfill_same add_source_def)

lemma dedupe_step_twice:
  assumes "self_matching r"
  shows "dedupe_step (dedupe_step U r) r = dedupe_step U r"
proof (cases "match_first U r")
  case (Pair U' matched)
  show ?thesis
  proof (cases matched)
    case True
    with Pair match_first_again [of U r U'] show ?thesis
      by (simp add: dedupe_step_def)
  next
    case False
    with Pair have U': "U' = U"
      by (simp add: match_first_unmatched)
    have "sameEntity (r\<lparr>sources := Some [source r]\<rparr>) r"
      using assms by (simp add: self_matching_sameEntity)
    with Pair False U' match_first_snoc [of U r "r\<lparr>sources := Some [source r]\<rparr>"]
    show ?thesis
      by (simp add: dedupe_step_def merge_into_fresh)
  qed
qed

lemma match_first_no_match: "\<not> self_matching r \<Longrightarrow> match_first U r = (U, False)"
  by (induction U) (auto simp: not_self_matching_no_match)

lemma dedupe_step_no_match:
  "\<not> self_matching r \<Longrightarrow> dedupe_step U r = U @ [r\<lparr>sources := Some [source r]\<rparr>]"
  by (simp add: dedupe_step_def match_first_no_match)

text \<open>An entity that matches \<open>r\<close> on a stable signal stays in the list and keeps matching.\<close>

lemma stable_match_sameEntity: "stable_match u r \<Longrightarrow> sameEntity u r"
  by (auto simp: stable_match_def sameEntity_iff)

lemma sameEntity_stable: "sameEntity u r \<Longrightarrow> city r \<noteq> [] \<Longrightarrow> stable_match u r"
  by (auto simp: stable_match_def sameEntity_iff toLowerCase_def)

lemma stable_match_merge_into: "stable_match u r \<Longrightarrow> stable_match (merge_into u b) r"
  unfolding stable_match_def
  by (auto simp: merge_into_def backfill_def normDomain_Nil normPhone_Nil
           dest: normDomain_nonempty normPhone_nonempty)

lemma stable_match_sources [simp]: "stable_match (u\<lparr>sources := x\<rparr>) r = stable_match u r"
  by (simp add: stable_match_def)

lemma match_first_keeps_stable:
  "\<exists>u \<in> set us. stable_match u r \<Longrightarrow> \<exists>u \<in> set (fst (match_first us b)). stable_match u r"
proof (induction us)
  case Nil
  then show ?case by simp
next
  case (Cons v vs)
  show ?case
  proof (cases "sameEntity v b")
    case True
    with Cons.prems show ?thesis
      by (auto simp: stable_match_merge_into)
  next
    case False
    with Cons show ?thesis
      by (cases "match_first vs b") auto
  qed
qed

lemma dedupe_step_keeps_stable:
  "\<exists>u \<in> set U. stable_match u r \<Longrightarrow> \<exists>u \<in> set (dedupe_step U b). stable_match u r"
  using match_first_keeps_stable [of U r b]
  by (cases "match_first U b") (auto simp: dedupe_step_def split: bool.splits)

lemma foldl_dedupe_step_keeps_stable:
  "\<exists>u \<in> set U. stable_match u r \<Longrightarrow> \<exists>u \<in> set (foldl dedupe_step U bs). stable_match u r"
proof (induction bs arbitrary: U)
  case Nil
  then show ?case by simp
next
  case (Cons b bs)
  from Cons.prems have "\<exists>u \<in> set (dedupe_step U b). stable_match u r"
    by (rule dedupe_step_keeps_stable)
  from Cons.IH [OF this] show ?case by simp
qed

lemma match_first_matched_stable:
  "match_first us r = (us', True) \<Longrightarrow> city r \<noteq> [] \<Longrightarrow> \<exists>u \<in> set us'. stable_match u r"
proof (induction us arbitrary: us')
  case Nil
  then show ?case by simp
next
  case (Cons v vs)
  show ?case
  proof (cases "sameEntity v r")
    case True
    with Cons.prems have "us' = merge_into v r # vs" by simp
    moreover have "stable_match (merge_into v r) r"
      using True Cons.prems(2) by (simp add: sameEntity_stable stable_match_merge_into)
    ultimately show ?thesis by simp
  next
    case False
    with Cons.prems obtain ws where "match_first vs r = (ws, True)" "us' = v # ws"
      by (auto split: prod.splits)
    with Cons.IH [of ws] Cons.prems(2) show ?thesis by auto
  qed
qed

lemma dedupe_step_makes_stable:
  assumes "self_matching r" and "city r \<noteq> []"
  shows "\<exists>u \<in> set (dedupe_step U r). stable_match u r"
proof (cases "match_first U r")
  case (Pair U' matched)
  show ?thesis
  proof (cases matched)
    case True
    with Pair match_first_matched_stable [of U r U'] assms(2) show ?thesis
      by (simp add: dedupe_step_def)
  next
    case False
    have "stable_match (r\<lparr>sources := Some [source r]\<rparr>) r"
      using assms by (simp add: self_matching_sameEntity sameEntity_stable)
    with Pair False show ?thesis
      by (simp add: dedupe_step_def)
  qed
qed

lemma match_first_finds: "\<exists>u \<in> set us. sameEntity u b \<Longrightarrow> snd (match_first us b)"
proof (induction us)
  case Nil
  then show ?case by simp
next
  case (Cons v vs)
  show ?case
  proof (cases "sameEntity v b")
    case True
    then show ?thesis by simp
  next
    case False
    with Cons.prems have "\<exists>u \<in> set vs. sameEntity u b" by auto
    from Cons.IH [OF this] False show ?thesis
      by (cases "match_first vs b") simp
  qed
qed

lemma length_match_first: "length (fst (match_first us b)) = length us"
  by (induction us) (auto split: prod.splits)

lemma dedupe_later_occurrence:
  assumes "self_matching r" and "city r \<noteq> []"
  shows "length (dedupe (xs @ r # ys @ [r])) = length (dedupe (xs @ r # ys))"
proof -
  let ?U = "dedupe (xs @ r # ys)"
  have "?U = foldl dedupe_step (dedupe_step (dedupe xs) r) ys"
    by (simp add: dedupe_def)
  moreover have "\<exists>u \<in> set (dedupe_step (dedupe xs) r). stable_match u r"
    using assms by (rule dedupe_step_makes_stable)
  ultimately have "\<exists>u \<in> set ?U. stable_match u r"
    by (simp add: foldl_dedupe_step_keeps_stable)
  then have "snd (match_first ?U r)"
    by (intro match_first_finds) (auto dest: stable_match_sameEntity)
  then have "length (dedupe_step ?U r) = length ?U"
    using length_match_first [of ?U r]
    by (cases "match_first ?U r") (auto simp: dedupe_step_def)
  moreover have "dedupe (xs @ r # ys @ [r]) = dedupe_step ?U r"
    using dedupe_snoc [of "xs @ r # ys" r] by simp
  ultimately show ?thesis by simp
qed

text \<open>
  Without a locality the second occurrence can miss: the bakehouse matches the first
  bakery on name similarity 0.76 and equal (empty) localities; a third record then
  backfills the locality, and the bakehouse, fed again, matches nothing.
\<close>

lemma dedupe_empty_city_example:
  "length (dedupe
     [rawRecord ''yelp'' ''Sunrise Bakery'' [] [] [] ''Arizona'' [] ''bakery'',
      rawRecord ''bbb'' ''Sunrise Bakehouse'' [] [] [] ''Arizona'' [] ''bakery'',
      rawRecord ''yellowpages'' ''Sunrise Bakery'' [] [] ''Phoenix'' ''Arizona'' [] ''bakery''])
     = 1
   \<and> length (dedupe
     [rawRecord ''yelp'' ''Sunrise Bakery'' [] [] [] ''Arizona'' [] ''bakery'',
      rawRecord ''bbb'' ''Sunrise Bakehouse'' [] [] [] ''Arizona'' [] ''bakery'',
      rawRecord ''yellowpages'' ''Sunrise Bakery'' [] [] ''Phoenix'' ''Arizona'' [] ''bakery'',
      rawRecord ''bbb'' ''Sunrise Bakehouse'' [] [] [] ''Arizona'' [] ''bakery'']) = 2"
  by code_simp

text \<open>
  C3 (as amended). Let \<open>r\<close> be a record with a non-empty normalised website domain, a
  ten-digit normalised phone or a non-empty normalised name. Fed to \<^verbatim>\<open>dedupe\<close> twice in a
  row after any list \<open>xs\<close> of earlier records, its second occurrence matches the entity
  the first one created or matched and changes nothing: the result is that of feeding
  \<open>r\<close> once. Fed again after any further records \<open>ys\<close>, it matches an entity and creates
  none, provided its locality is not empty. A record with none of the three signals
  matches no entity, not even itself, and each occurrence creates an entity of its own.
\<close>

theorem dedupe_same_record_twice:
  "(if self_matching r
    then dedupe (xs @ [r, r]) = dedupe (xs @ [r]) \<and> snd (match_first (dedupe (xs @ [r])) r)
         \<and> (city r \<noteq> [] \<longrightarrow>
              length (dedupe (xs @ r # ys @ [r])) = length (dedupe (xs @ r # ys)))
    else length (dedupe (xs @ [r, r])) = length (dedupe xs) + 2)"
proof (cases "self_matching r")
  case True
  have "dedupe (xs @ [r, r]) = dedupe_step (dedupe_step (dedupe xs) r) r"
    by (simp add: dedupe_def)
  also have "\<dots> = dedupe (xs @ [r])"
    using True by (simp add: dedupe_step_twice dedupe_snoc)
  finally have eq: "dedupe (xs @ [r, r]) = dedupe (xs @ [r])" .
  have "dedupe_step (dedupe (xs @ [r])) r = dedupe (xs @ [r])"
    using True by (simp add: dedupe_step_twice dedupe_snoc)
  moreover have "length (dedupe (xs @ [r])) \<noteq> Suc (length (dedupe (xs @ [r])))"
    by simp
  ultimately have m: "snd (match_first (dedupe (xs @ [r])) r)"
    by (cases "match_first (dedupe (xs @ [r])) r")
       (auto simp: dedupe_step_def split: bool.splits dest: match_first_unmatched)
  have "city r \<noteq> [] \<longrightarrow>
          length (dedupe (xs @ r # ys @ [r])) = length (dedupe (xs @ r # ys))"
    using True by (simp add: dedupe_later_occurrence)
  with eq m True show ?thesis by simp
next
  case False
  have "dedupe (xs @ [r, r]) = dedupe_step (dedupe_step (dedupe xs) r) r"
    by (simp add: dedupe_def)
  with False show ?thesis
    by (simp add: dedupe_step_no_match)
qed

text \<open>
  The theorem at a record with a name only, fed twice after another bakery: the list
  of entities is the same as after feeding it once.
\<close>

theorem dedupe_same_record_twice_witness:
  "dedupe
     ([rawRecord ''yelp'' ''Desert Plumbing'' [] [] ''Tucson'' ''Arizona'' [] ''plumber'']
      @ [rawRecord ''bbb'' ''Sunrise Bakery'' [] [] ''Phoenix'' ''Arizona'' [] ''bakery'',
         rawRecord ''bbb'' ''Sunrise Bakery'' [] [] ''Phoenix'' ''Arizona'' [] ''bakery''])
   = dedupe
     ([rawRecord ''yelp'' ''Desert Plumbing'' [] [] ''Tucson'' ''Arizona'' [] ''plumber'']
      @ [rawRecord ''bbb'' ''Sunrise Bakery'' [] [] ''Phoenix'' ''Arizona'' [] ''bakery''])"
  (is "dedupe (?xs @ [?r, ?r]) = _")
proof -
  have s: "self_matching ?r"
    by code_simp
  show ?thesis
    using dedupe_same_record_twice [of ?r ?xs] s by simp
qed

text \<open>
  C3 as stated fails: a record whose name, phone and website are empty does not match
  itself, and feeding it twice creates two entities.
\<close>

theorem dedupe_empty_record_counterexample:
  "length (dedupe
     [rawRecord ''yelp'' [] [] [] ''Phoenix'' ''Arizona'' [] ''bakery'',
      rawRecord ''yelp'' [] [] [] ''Phoenix'' ''Arizona'' [] ''bakery'']) = 2"
  by code_simp

section \<open>Properties of enrichment\<close>

subsection \<open>Mail-exchange verification\<close>

lemma verifyEmailMx_agrees:
  assumes "cache_agrees resolve cache"
  shows "fst (verifyEmailMx resolve cache e) = has_mx resolve e
         \<and> cache_agrees resolve (snd (verifyEmailMx resolve cache e))"
proof (cases "split_on CHR ''@'' e")
  case Nil
  with assms show ?thesis by (simp add: verifyEmailMx_def has_mx_def)
next
  case (Cons p ps)
  show ?thesis
  proof (cases ps)
    case Nil
    with Cons assms show ?thesis by (simp add: verifyEmailMx_def has_mx_def)
  next
    case (Cons domain qs)
    note sp = \<open>split_on CHR ''@'' e = p # ps\<close> Cons
    show ?thesis
    proof (cases "cache domain")
      case None
      with sp assms show ?thesis
        by (cases "resolve domain")
           (auto simp: verifyEmailMx_def has_mx_def cache_agrees_def)
    next
      case (Some v)
      with assms have "v = (case resolve domain of Some n \<Rightarrow> n > 0 | None \<Rightarrow> False)"
        unfolding cache_agrees_def by blast
      with sp Some assms show ?thesis
        by (simp add: verifyEmailMx_def has_mx_def)
    qed
  qed
qed

lemma mx_loop_map:
  "cache_agrees resolve cache \<Longrightarrow>
   fst (mx_loop resolve cache cs)
     = map (\<lambda>c. c\<lparr>confidence := mx_confidence (has_mx resolve (email c)) (confidence c)\<rparr>) cs
   \<and> cache_agrees resolve (snd (mx_loop resolve cache cs))"
proof (induction cs arbitrary: cache)
  case Nil
  then show ?case by simp
next
  case (Cons c cs)
  obtain v cache' where v: "verifyEmailMx resolve cache (email c) = (v, cache')"
    by (cases "verifyEmailMx resolve cache (email c)")
  with verifyEmailMx_agrees [OF Cons.prems, of "email c"]
  have *: "v = has_mx resolve (email c)" "cache_agrees resolve cache'" by simp_all
  obtain cs' cache'' where r: "mx_loop resolve cache' cs = (cs', cache'')"
    by (cases "mx_loop resolve cache' cs")
  with Cons.IH [OF *(2)] v * show ?case
    by simp
qed

lemma mx_loop_emails: "map email (fst (mx_loop resolve cache cs)) = map email cs"
proof (induction cs arbitrary: cache)
  case Nil
  then show ?case by simp
next
  case (Cons c cs)
  obtain v cache' where v: "verifyEmailMx resolve cache (email c) = (v, cache')"
    by (cases "verifyEmailMx resolve cache (email c)")
  obtain cs' cache'' where r: "mx_loop resolve cache' cs = (cs', cache'')"
    by (cases "mx_loop resolve cache' cs")
  with Cons [of cache'] v show ?case by simp
qed


lemma mx_confidence_cases:
  "mx_confidence v conf =
     (if v then (if conf = ''found'' then ''verified''
                 else if conf = ''inferred'' then ''inferred_mx_ok'' else conf)
      else (if conf = ''inferred'' then ''inferred_no_mx'' else ''no_mx''))"
  by (simp add: mx_confidence_def)

text \<open>
  C4. Whenever \<^verbatim>\<open>enrichBusiness\<close> gets past its early returns (the business has a
  website, the URL resolves and the home page is fetched), the contacts it returns are
  all the contacts gathered in this pass, from the home page, the subpages, WHOIS and
  inference alike, each one passed through the verification loop. When the domain of a
  contact's address has mail-exchange records, confidence \<^verbatim>\<open>found\<close> becomes
  \<^verbatim>\<open>verified\<close> and \<^verbatim>\<open>inferred\<close> becomes \<^verbatim>\<open>inferred_mx_ok\<close>; when it has none, confidence
  becomes \<^verbatim>\<open>inferred_no_mx\<close> if it was \<^verbatim>\<open>inferred\<close> and \<^verbatim>\<open>no_mx\<close> otherwise. Nothing else
  of a contact changes, no contact is dropped or added, and the cache keeps holding the
  resolver's answers, so the same holds on the next pass.
\<close>

theorem mx_verification_all_contacts:
  assumes "cache_agrees resolve cache"
    and "website b \<noteq> []" and "baseUrl \<noteq> []"
  shows "fst (enrichBusiness_contacts resolve cache b (Some baseUrl) (Some hr) subs whois)
           = map (\<lambda>c. c\<lparr>confidence :=
                   (if has_mx resolve (email c)
                    then (if confidence c = ''found'' then ''verified''
                          else if confidence c = ''inferred'' then ''inferred_mx_ok''
                          else confidence c)
                    else (if confidence c = ''inferred'' then ''inferred_no_mx''
                          else ''no_mx''))\<rparr>)
               (allContacts (gather_contacts baseUrl hr subs whois))
         \<and> cache_agrees resolve
             (snd (enrichBusiness_contacts resolve cache b (Some baseUrl) (Some hr) subs whois))
         \<and> fst (mx_loop resolve cache cs)
           = map (\<lambda>c. c\<lparr>confidence :=
                   (if has_mx resolve (email c)
                    then (if confidence c = ''found'' then ''verified''
                          else if confidence c = ''inferred'' then ''inferred_mx_ok''
                          else confidence c)
                    else (if confidence c = ''inferred'' then ''inferred_no_mx''
                          else ''no_mx''))\<rparr>) cs
         \<and> cache_agrees resolve (snd (mx_loop resolve cache cs))"
proof -
  have e: "enrichBusiness_contacts resolve cache b (Some baseUrl) (Some hr) subs whois
             = mx_loop resolve cache (allContacts (gather_contacts baseUrl hr subs whois))"
    using assms(2,3) by (simp add: enrichBusiness_contacts_def)
  show ?thesis
    unfolding e
    using mx_loop_map [OF assms(1), of cs]
      mx_loop_map [OF assms(1), of "allContacts (gather_contacts baseUrl hr subs whois)"]
    by (simp add: mx_confidence_cases)
qed

text \<open>
  The theorem with a resolver that knows \<^verbatim>\<open>x.com\<close> only and the empty cache of a fresh
  process, on a site whose home page has a found address at \<^verbatim>\<open>x.com\<close> and one at a
  domain without records, whose team page names two people without address, and whose
  registrant is at the domain without records: the five contacts come back as verified,
  no_mx, no_mx (the registrant) and twice inferred_mx_ok. The loop alone, on four
  contacts: found and inferred at \<^verbatim>\<open>x.com\<close>, found and inferred at the domain without
  records.
\<close>

theorem mx_verification_all_contacts_witness:
  "map confidence
     (fst (enrichBusiness_contacts (\<lambda>d. if d = ''x.com'' then Some 1 else None) Map.empty
        (rawRecord ''yelp'' ''Sunrise Bakery'' [] [] ''Phoenix'' ''Arizona'' ''x.com'' ''bakery'')
        (Some ''https://www.x.com'')
        (Some \<lparr>x_contacts =
                  [foundContact ''ann.lee@x.com'' ''Ann'' ''Lee'' [] [] ''https://www.x.com'',
                   foundContact ''cy@nomx.org'' ''Cy'' ''Poe'' [] [] ''https://www.x.com''],
                x_names = []\<rparr>)
        [Some \<lparr>x_contacts = [],
                x_names =
                  [\<lparr>p_first_name = ''Bob'', p_last_name = ''Ray'', p_title = ''Baker'',
                    p_phone = [], p_source_page = ''https://www.x.com/team''\<rparr>,
                   \<lparr>p_first_name = ''Di'', p_last_name = ''Fox'', p_title = [],
                    p_phone = [], p_source_page = ''https://www.x.com/team''\<rparr>]\<rparr>]
        (Some \<lparr>reg_name = ''Ann Lee'', reg_email = ''owner@nomx.org'', reg_phone = []\<rparr>)))
   = [''verified'', ''no_mx'', ''no_mx'', ''inferred_mx_ok'', ''inferred_mx_ok'']
   \<and> map confidence
     (fst (mx_loop (\<lambda>d. if d = ''x.com'' then Some 1 else None) Map.empty
        [foundContact ''ann@x.com'' ''Ann'' ''Lee'' [] [] ''https://x.com'',
         (foundContact ''bob.ray@x.com'' ''Bob'' ''Ray'' [] [] ''https://x.com'')
           \<lparr>confidence := ''inferred''\<rparr>,
         foundContact ''cy@nomx.org'' ''Cy'' ''Poe'' [] [] ''https://x.com'',
         (foundContact ''di.fox@nomx.org'' ''Di'' ''Fox'' [] [] ''https://x.com'')
           \<lparr>confidence := ''inferred''\<rparr>]))
   = [''verified'', ''inferred_mx_ok'', ''no_mx'', ''inferred_no_mx'']"
  (is "map confidence (fst (enrichBusiness_contacts ?r Map.empty ?b (Some ?u) (Some ?hr) ?subs
         ?w)) = ?out \<and> map confidence (fst (mx_loop ?r Map.empty ?cs)) = ?out2")
proof -
  have a: "cache_agrees ?r Map.empty"
    by (simp add: cache_agrees_def)
  have w: "website ?b \<noteq> []"
    by code_simp
  have u: "?u \<noteq> []"
    by simp
  have e: "fst (enrichBusiness_contacts ?r Map.empty ?b (Some ?u) (Some ?hr) ?subs ?w)
             = map (\<lambda>c. c\<lparr>confidence :=
                     (if has_mx ?r (email c)
                      then (if confidence c = ''found'' then ''verified''
                            else if confidence c = ''inferred'' then ''inferred_mx_ok''
                            else confidence c)
                      else (if confidence c = ''inferred'' then ''inferred_no_mx''
                            else ''no_mx''))\<rparr>)
                 (allContacts (gather_contacts ?u ?hr ?subs ?w))"
    using mx_verification_all_contacts [OF a w u] by blast
  have v: "map confidence
             (map (\<lambda>c. c\<lparr>confidence :=
                     (if has_mx ?r (email c)
                      then (if confidence c = ''found'' then ''verified''
                            else if confidence c = ''inferred'' then ''inferred_mx_ok''
                            else confidence c)
                      else (if confidence c = ''inferred'' then ''inferred_no_mx''
                            else ''no_mx''))\<rparr>)
                (allContacts (gather_contacts ?u ?hr ?subs ?w))) = ?out"
    by code_simp
  have e2: "fst (mx_loop ?r Map.empty ?cs)
             = map (\<lambda>c. c\<lparr>confidence :=
                     (if has_mx ?r (email c)
                      then (if confidence c = ''found'' then ''verified''
                            else if confidence c = ''inferred'' then ''inferred_mx_ok''
                            else confidence c)
                      else (if confidence c = ''inferred'' then ''inferred_no_mx''
                            else ''no_mx''))\<rparr>) ?cs"
    using mx_verification_all_contacts [OF a w u] by blast
  have v2: "map confidence
             (map (\<lambda>c. c\<lparr>confidence :=
                     (if has_mx ?r (email c)
                      then (if confidence c = ''found'' then ''verified''
                            else if confidence c = ''inferred'' then ''inferred_mx_ok''
                            else confidence c)
                      else (if confidence c = ''inferred'' then ''inferred_no_mx''
                            else ''no_mx''))\<rparr>) ?cs) = ?out2"
    by code_simp
  have 1: "map confidence (fst (enrichBusiness_contacts ?r Map.empty ?b (Some ?u) (Some ?hr)
             ?subs ?w)) = ?out"
    unfolding e by (rule v)
  have 2: "map confidence (fst (mx_loop ?r Map.empty ?cs)) = ?out2"
    unfolding e2 by (rule v2)
  from 1 2 show ?thesis
    by (rule conjI)
qed

subsection \<open>Distinct addresses\<close>

lemma emails_ok_push:
  "emails_ok st \<Longrightarrow> e \<notin> allEmails st \<Longrightarrow> email c = e \<Longrightarrow>
   emails_ok (st\<lparr>allContacts := allContacts st @ [c], allEmails := insert e (allEmails st)\<rparr>)"
  by (auto simp: emails_ok_def)

lemma add_contacts_ok: "emails_ok st \<Longrightarrow> emails_ok (add_contacts cs st)"
proof (induction cs arbitrary: st)
  case Nil
  then show ?case by simp
next
  case (Cons c cs)
  show ?case
  proof (cases "email c \<in> allEmails st")
    case True
    with Cons show ?thesis by simp
  next
    case False
    with Cons.prems have "emails_ok (st\<lparr>allContacts := allContacts st @ [c],
                                      allEmails := insert (email c) (allEmails st)\<rparr>)"
      by (simp add: emails_ok_push)
    with False Cons.IH show ?thesis by simp
  qed
qed

lemma add_page_ok: "emails_ok st \<Longrightarrow> emails_ok (add_page pr st)"
  using add_contacts_ok [of st "x_contacts pr"] by (simp add: add_page_def Let_def emails_ok_def)

lemma subpages_loop_ok: "emails_ok st \<Longrightarrow> emails_ok (subpages_loop rs st)"
  by (induction rs st rule: subpages_loop.induct) (auto simp: Let_def add_page_ok)

lemma emails_ok_push':
  "emails_ok st \<Longrightarrow> e \<notin> allEmails st \<Longrightarrow> email c = e \<Longrightarrow>
   emails_ok (st\<lparr>allEmails := insert e (allEmails st), allContacts := allContacts st @ [c]\<rparr>)"
  by (auto simp: emails_ok_def)

lemma whois_step_ok: "emails_ok st \<Longrightarrow> emails_ok (whois_step w st)"
  by (auto simp: whois_step_def Let_def emails_ok_push' split: option.splits)

lemma infer_loop_ok: "emails_ok st \<Longrightarrow> emails_ok (infer_loop pat d ps st)"
proof (induction ps arbitrary: st)
  case Nil
  then show ?case by simp
next
  case (Cons p ps)
  have "emails_ok
     (case generateEmail pat (p_first_name p) (p_last_name p) d of
        None \<Rightarrow> st
      | Some inferredEmail \<Rightarrow>
          if inferredEmail \<noteq> [] \<and> inferredEmail \<notin> allEmails st
          then st\<lparr>allEmails := insert inferredEmail (allEmails st),
                  allContacts := allContacts st @
                    [\<lparr>email = inferredEmail, first_name = p_first_name p,
                      last_name = p_last_name p, title = p_title p,
                      cphone = p_phone p, confidence = ''inferred'',
                      source_page = p_source_page p\<rparr>]\<rparr>
          else st)"
    using Cons.prems by (auto simp: emails_ok_push' split: option.splits)
  then show ?case
    using Cons.IH by simp
qed

lemma infer_step_ok: "emails_ok st \<Longrightarrow> emails_ok (infer_step d st)"
  by (auto simp: infer_step_def infer_loop_ok split: option.splits)

lemma gather_contacts_ok: "emails_ok (gather_contacts baseUrl hr subs whois)"
  unfolding gather_contacts_def Let_def
  by (intro infer_step_ok whois_step_ok subpages_loop_ok add_page_ok) (simp add: emails_ok_def)


text \<open>
  C10. The contacts \<^verbatim>\<open>enrichBusiness\<close> returns carry pairwise distinct addresses,
  whatever the pages, the WHOIS answer and the resolver give: the home page, the
  subpages, the registrant and the inferred addresses all pass the test against
  \<^verbatim>\<open>allEmails\<close> before they are pushed, and verification changes no address.
\<close>

theorem enrichBusiness_distinct_emails:
  "distinct (map email
     (fst (enrichBusiness_contacts resolve cache b resolved home subs whois)))"
  using gather_contacts_ok
  by (auto simp: enrichBusiness_contacts_def mx_loop_emails emails_ok_def split: option.splits)

text \<open>
  The theorem on a site whose home page lists an address twice, whose team page lists
  it again, and whose registrant has the same address in capitals.
\<close>

theorem enrichBusiness_distinct_emails_witness:
  "distinct (map email
     (fst (enrichBusiness_contacts (\<lambda>d. if d = ''x.com'' then Some 1 else None) Map.empty
        (rawRecord ''yelp'' ''Sunrise Bakery'' [] [] ''Phoenix'' ''Arizona'' ''x.com'' ''bakery'')
        (Some ''https://www.x.com'')
        (Some \<lparr>x_contacts =
                  [foundContact ''owner@x.com'' ''Ann'' ''Lee'' [] [] ''https://www.x.com'',
                   foundContact ''owner@x.com'' [] [] [] [] ''https://www.x.com''],
                x_names = []\<rparr>)
        [Some \<lparr>x_contacts =
                  [foundContact ''owner@x.com'' ''Ann'' ''Lee'' ''Owner'' []
                     ''https://www.x.com/team''],
                x_names = []\<rparr>]
        (Some \<lparr>reg_name = ''Ann Lee'', reg_email = ''Owner@X.com'', reg_phone = []\<rparr>))))"
  by (rule enrichBusiness_distinct_emails)

subsection \<open>Pattern detection\<close>

lemma distinct_PATTERNS: "distinct PATTERNS"
  by (simp add: PATTERNS_def)

lemma patterns_init_PATTERNS: "patterns_init = map (\<lambda>p. (p, 0)) PATTERNS"
  by (simp add: patterns_init_def PATTERNS_def)

lemma bump_map:
  "distinct ps \<Longrightarrow>
   bump k (map (\<lambda>p. (p, g p)) ps) = map (\<lambda>p. (p, g p + (if Some k = Some p then 1 else 0))) ps"
  by (induction ps) auto

lemma count_contact_vote:
  "count_contact tbl c = (case first_match c of None \<Rightarrow> tbl | Some k \<Rightarrow> bump k tbl)"
  by (simp add: count_contact_def first_match_def matches_candidate_def Let_def PATTERNS_def
        candidate_local_def toLowerCase_Nil_iff)

lemma count_contact_map:
  "count_contact (map (\<lambda>p. (p, g p)) PATTERNS) c
     = map (\<lambda>p. (p, g p + (if first_match c = Some p then 1 else 0))) PATTERNS"
  by (cases "first_match c") (simp_all add: count_contact_vote bump_map distinct_PATTERNS)

lemma vote_count_Cons:
  "vote_count (c # cs) p = (if first_match c = Some p then 1 else 0) + vote_count cs p"
  by (simp add: vote_count_def)

lemma foldl_count_contact:
  "foldl count_contact (map (\<lambda>p. (p, g p)) PATTERNS) cs
     = map (\<lambda>p. (p, g p + vote_count cs p)) PATTERNS"
proof (induction cs arbitrary: g)
  case Nil
  then show ?case by (simp add: vote_count_def)
next
  case (Cons c cs)
  show ?case
    using Cons [of "\<lambda>p. g p + (if first_match c = Some p then 1 else 0)"]
    by (simp add: count_contact_map vote_count_Cons add.assoc)
qed

lemma best_loop_max:
  "best_loop (map (\<lambda>p. (p, h p)) ps) (b, m)
     = (if \<forall>p \<in> set ps. h p \<le> m then (b, m)
        else (find (\<lambda>p. h p = Max (set (map h ps))) ps, Max (set (map h ps))))"
proof (induction ps arbitrary: b m)
  case Nil
  then show ?case by simp
next
  case (Cons p ps)
  show ?case
  proof (cases ps)
    case Nil
    then show ?thesis by auto
  next
    case (Cons q qs)
    then have ne: "set (map h ps) \<noteq> {}" and fin: "finite (set (map h ps))"
      by simp_all
    have mx: "Max (set (map h (p # ps))) = max (h p) (Max (set (map h ps)))"
      using ne by (simp add: Max_insert)
    have ge: "\<And>x. x \<in> set ps \<Longrightarrow> h x \<le> Max (set (map h ps))"
      by (simp add: Max_ge)
    have "Max (set (map h ps)) \<in> set (map h ps)"
      using ne fin Max_in by blast
    then obtain w where w: "w \<in> set ps" "h w = Max (set (map h ps))"
      by auto
    show ?thesis
    proof (cases "h p > m")
      case True
      show ?thesis
      proof (cases "\<forall>x \<in> set ps. h x \<le> h p")
        case all: True
        then have "Max (set (map h ps)) \<le> h p"
          using w by auto
        with True all Cons.IH [of "Some p" "h p"] mx show ?thesis
          by (auto simp: max_def)
      next
        case False
        then have "h p < Max (set (map h ps))"
          using ge by (meson leD leI order_trans)
        with True False Cons.IH [of "Some p" "h p"] mx show ?thesis
          by (auto simp: max_def)
      qed
    next
      case False
      show ?thesis
      proof (cases "\<forall>x \<in> set ps. h x \<le> m")
        case all: True
        with False Cons.IH [of b m] show ?thesis
          by auto
      next
        case nall: False
        then have "m < Max (set (map h ps))"
          using ge by (meson leD leI order_trans)
        with False nall Cons.IH [of b m] mx show ?thesis
          by (auto simp: max_def)
      qed
    qed
  qed
qed

lemma detectEmailPattern_refines: "detectEmailPattern cs = vote_winner cs"
proof -
  let ?h = "vote_count cs"
  have tbl: "foldl count_contact patterns_init cs = map (\<lambda>p. (p, ?h p)) PATTERNS"
    using foldl_count_contact [of "\<lambda>p. 0" cs] by (simp add: patterns_init_PATTERNS)
  have ne: "set (map ?h PATTERNS) \<noteq> {}"
    by (simp add: PATTERNS_def)
  show ?thesis
  proof (cases "\<forall>p \<in> set PATTERNS. ?h p \<le> 0")
    case True
    then have "\<forall>y \<in> set (map ?h PATTERNS). y \<le> 0" by simp
    then have "Max (set (map ?h PATTERNS)) \<le> 0"
      using ne by (intro Max.boundedI) auto
    with True show ?thesis
      by (simp add: detectEmailPattern_def vote_winner_def tbl best_loop_max)
  next
    case False
    then obtain p where p: "p \<in> set PATTERNS" "?h p > 0" by auto
    then have "?h p \<le> Max (set (map ?h PATTERNS))"
      by (intro Max_ge) auto
    with p have "Max (set (map ?h PATTERNS)) \<ge> 1" by linarith
    with False show ?thesis
      by (auto simp: detectEmailPattern_def vote_winner_def tbl best_loop_max Let_def)
  qed
qed


lemma generateEmail_nonempty: "generateEmail pattern f l d = Some e \<Longrightarrow> e \<noteq> []"
  by (auto simp: generateEmail_def Let_def split: if_splits)

text \<open>Where no local part matches two candidates, votes and exact matches are the same.\<close>

lemma find_unique:
  "length (filter P xs) \<le> 1 \<Longrightarrow> p \<in> set xs \<Longrightarrow> find P xs = Some p \<longleftrightarrow> P p"
proof (induction xs)
  case Nil
  then show ?case by simp
next
  case (Cons x xs)
  show ?case
  proof (cases "P x")
    case True
    with Cons.prems(1) have "filter P xs = []" by simp
    then have "\<forall>y \<in> set xs. \<not> P y"
      by (simp add: filter_empty_conv)
    with True Cons.prems(2) show ?thesis by auto
  next
    case False
    show ?thesis
    proof (cases "p = x")
      case True
      have "find P xs \<noteq> Some x"
        using False by (auto simp: find_Some_iff)
      with True False show ?thesis by simp
    next
      case neq: False
      with Cons False show ?thesis by simp
    qed
  qed
qed

lemma first_match_unambiguous:
  "\<not> ambiguous c \<Longrightarrow> p \<in> set PATTERNS \<Longrightarrow> first_match c = Some p \<longleftrightarrow> matches_candidate c p"
  unfolding first_match_def ambiguous_def by (intro find_unique) simp_all

lemma vote_count_exact:
  "list_all (\<lambda>c. \<not> ambiguous c) cs \<Longrightarrow> p \<in> set PATTERNS \<Longrightarrow>
   vote_count cs p = exact_matches cs p"
  unfolding vote_count_def exact_matches_def
  by (induction cs) (simp_all add: first_match_unambiguous)

lemma vote_winner_exact:
  assumes "list_all (\<lambda>c. \<not> ambiguous c) cs"
  shows "vote_winner cs = highest_exact_match cs"
proof -
  have m: "map (vote_count cs) PATTERNS = map (exact_matches cs) PATTERNS"
    using assms by (simp add: vote_count_exact)
  have "find (\<lambda>p. vote_count cs p = t) PATTERNS = find (\<lambda>p. exact_matches cs p = t) PATTERNS"
    for t
    using assms by (intro find_cong) (simp_all add: vote_count_exact)
  with m show ?thesis
    by (simp add: vote_winner_def highest_exact_match_def)
qed

text \<open>
  C5 (as amended). \<^verbatim>\<open>detectEmailPattern\<close> is a vote with one vote per contact: every
  contact with an address, a first and a last name votes once, for the first of the
  candidates first, first.last, firstlast, flast, first_last, firstl, last that equals
  the local part of its address; the result is the first candidate in that order with
  the most votes, and none when there is no vote. When no contact's local part equals
  two candidates, this is the candidate with the highest count of exact matches. The
  contacts John Smith at \<^verbatim>\<open>john.smith@x.com\<close> and Jane Doe at \<^verbatim>\<open>jane.doe@x.com\<close> give
  \<^verbatim>\<open>first.last\<close>; the pattern turns the name Sarah Jones into \<^verbatim>\<open>sarah.jones@x.com\<close>; the
  inference step adds that address as a contact with confidence \<^verbatim>\<open>inferred\<close>, and adds
  nothing when the address is already known.
\<close>

theorem detectEmailPattern_voting:
  "detectEmailPattern cs = vote_winner cs
   \<and> (list_all (\<lambda>c. \<not> ambiguous c) cs \<longrightarrow> detectEmailPattern cs = highest_exact_match cs)
   \<and> detectEmailPattern
       [foundContact ''john.smith@x.com'' ''John'' ''Smith'' [] [] ''https://www.x.com'',
        foundContact ''jane.doe@x.com'' ''Jane'' ''Doe'' [] [] ''https://www.x.com'']
     = Some ''first.last''
   \<and> generateEmail ''first.last'' ''Sarah'' ''Jones'' ''x.com'' = Some ''sarah.jones@x.com''
   \<and> infer_loop pattern domain [person] st
     = (case generateEmail pattern (p_first_name person) (p_last_name person) domain of
          None \<Rightarrow> st
        | Some e \<Rightarrow>
            if e \<in> allEmails st then st
            else st\<lparr>allEmails := insert e (allEmails st),
                    allContacts := allContacts st @
                      [\<lparr>email = e, first_name = p_first_name person,
                        last_name = p_last_name person, title = p_title person,
                        cphone = p_phone person, confidence = ''inferred'',
                        source_page = p_source_page person\<rparr>]\<rparr>)
   \<and> allContacts (gather_contacts ''https://www.x.com''
        \<lparr>x_contacts =
           [foundContact ''john.smith@x.com'' ''John'' ''Smith'' [] [] ''https://www.x.com'',
            foundContact ''jane.doe@x.com'' ''Jane'' ''Doe'' [] [] ''https://www.x.com''],
         x_names =
           [\<lparr>p_first_name = ''Sarah'', p_last_name = ''Jones'', p_title = ''Baker'',
             p_phone = [], p_source_page = ''https://www.x.com''\<rparr>]\<rparr> [] None)
     = [foundContact ''john.smith@x.com'' ''John'' ''Smith'' [] [] ''https://www.x.com'',
        foundContact ''jane.doe@x.com'' ''Jane'' ''Doe'' [] [] ''https://www.x.com'',
        \<lparr>email = ''sarah.jones@x.com'', first_name = ''Sarah'', last_name = ''Jones'',
         title = ''Baker'', cphone = [], confidence = ''inferred'',
         source_page = ''https://www.x.com''\<rparr>]
   \<and> allContacts (gather_contacts ''https://www.x.com''
        \<lparr>x_contacts =
           [foundContact ''john.smith@x.com'' ''John'' ''Smith'' [] [] ''https://www.x.com'',
            foundContact ''jane.doe@x.com'' ''Jane'' ''Doe'' [] [] ''https://www.x.com'',
            foundContact ''sarah.jones@x.com'' [] [] [] [] ''https://www.x.com''],
         x_names =
           [\<lparr>p_first_name = ''Sarah'', p_last_name = ''Jones'', p_title = ''Baker'',
             p_phone = [], p_source_page = ''https://www.x.com''\<rparr>]\<rparr> [] None)
     = [foundContact ''john.smith@x.com'' ''John'' ''Smith'' [] [] ''https://www.x.com'',
        foundContact ''jane.doe@x.com'' ''Jane'' ''Doe'' [] [] ''https://www.x.com'',
        foundContact ''sarah.jones@x.com'' [] [] [] [] ''https://www.x.com'']"
  (is "?refines \<and> ?exact \<and> ?john_jane \<and> ?sarah \<and> ?step \<and> ?added \<and> ?skipped")
proof -
  have 1: ?refines
    by (rule detectEmailPattern_refines)
  have 0: ?exact
    by (simp add: detectEmailPattern_refines vote_winner_exact)
  have 2: ?john_jane
    by code_simp
  have 3: ?sarah
    by code_simp
  have 4: ?step
    by (auto simp: generateEmail_nonempty split: option.splits)
  have 5: ?added
    by code_simp
  have 6: ?skipped
    by code_simp
  from 1 0 2 3 4 5 6 show ?thesis
    by blast
qed

text \<open>
  The theorem at the two contacts of the example, neither of them ambiguous: the vote and
  the count of exact matches both give \<^verbatim>\<open>first.last\<close>.
\<close>

theorem detectEmailPattern_voting_witness:
  "vote_winner
     [foundContact ''john.smith@x.com'' ''John'' ''Smith'' [] [] ''https://www.x.com'',
      foundContact ''jane.doe@x.com'' ''Jane'' ''Doe'' [] [] ''https://www.x.com'']
   = Some ''first.last''
   \<and> highest_exact_match
     [foundContact ''john.smith@x.com'' ''John'' ''Smith'' [] [] ''https://www.x.com'',
      foundContact ''jane.doe@x.com'' ''Jane'' ''Doe'' [] [] ''https://www.x.com'']
   = Some ''first.last''"
  (is "vote_winner ?cs = _ \<and> _")
proof -
  have u: "list_all (\<lambda>c. \<not> ambiguous c) ?cs"
    by code_simp
  have "detectEmailPattern ?cs = vote_winner ?cs"
    using detectEmailPattern_voting [of ?cs] by blast
  moreover have "detectEmailPattern ?cs = highest_exact_match ?cs"
    using detectEmailPattern_voting [of ?cs] u by blast
  moreover have "detectEmailPattern ?cs = Some ''first.last''"
    using detectEmailPattern_voting [of ?cs] by blast
  ultimately show ?thesis
    by simp
qed

text \<open>
  C5 as stated fails: the local part \<^verbatim>\<open>jsmith\<close> of J Smith equals both the candidate
  firstlast and the candidate flast, and \<^verbatim>\<open>adoe\<close> of Amy Doe equals flast. The exact
  matches are one for firstlast and two for flast, so the highest count is that of
  flast; the \<^verbatim>\<open>else if\<close> chain gives the vote of J Smith to firstlast alone, the two
  candidates tie at one vote, and \<^verbatim>\<open>detectEmailPattern\<close> returns firstlast.
\<close>

theorem detectEmailPattern_exact_match_counterexample:
  "exact_matches
     [foundContact ''jsmith@x.com'' ''J'' ''Smith'' [] [] ''https://www.x.com'',
      foundContact ''adoe@x.com'' ''Amy'' ''Doe'' [] [] ''https://www.x.com''] ''firstlast'' = 1
   \<and> exact_matches
     [foundContact ''jsmith@x.com'' ''J'' ''Smith'' [] [] ''https://www.x.com'',
      foundContact ''adoe@x.com'' ''Amy'' ''Doe'' [] [] ''https://www.x.com''] ''flast'' = 2
   \<and> highest_exact_match
     [foundContact ''jsmith@x.com'' ''J'' ''Smith'' [] [] ''https://www.x.com'',
      foundContact ''adoe@x.com'' ''Amy'' ''Doe'' [] [] ''https://www.x.com''] = Some ''flast''
   \<and> detectEmailPattern
     [foundContact ''jsmith@x.com'' ''J'' ''Smith'' [] [] ''https://www.x.com'',
      foundContact ''adoe@x.com'' ''Amy'' ''Doe'' [] [] ''https://www.x.com'']
     = Some ''firstlast''"
  by code_simp

section \<open>Properties of the orchestrator\<close>

subsection \<open>The Yelp breaker\<close>

lemma yelp_tripped:
  "yelpConsecutiveFails n \<ge> 5 \<Longrightarrow>
   discoverSingle Yelp resp n = (Some [], n\<lparr>yelp_skipped := Suc (yelp_skipped n)\<rparr>)"
  by (simp add: discoverYelpSingle_def)

lemma yp_pages_keeps:
  "yelpConsecutiveFails (snd (yp_pages pgs resp acc n)) = yelpConsecutiveFails n
   \<and> yelp_skipped (snd (yp_pages pgs resp acc n)) = yelp_skipped n
   \<and> calls (snd (yp_pages pgs resp acc n)) Yelp = calls n Yelp"
  by (induction pgs arbitrary: acc n)
     (auto simp: called_def Let_def split: response.splits)

lemma other_source_keeps:
  "src \<noteq> Yelp \<Longrightarrow>
   yelpConsecutiveFails (snd (discoverSingle src resp n)) = yelpConsecutiveFails n
   \<and> yelp_skipped (snd (discoverSingle src resp n)) = yelp_skipped n
   \<and> calls (snd (discoverSingle src resp n)) Yelp = calls n Yelp"
  by (cases src)
     (auto simp: yp_pages_keeps discoverPlainSingle_def called_def Let_def split: response.splits)

lemma yp_pages_calls: "pgs \<noteq> [] \<Longrightarrow> calls (snd (yp_pages pgs resp acc n)) YP > calls n YP"
proof (induction pgs arbitrary: acc n)
  case Nil
  then show ?case by simp
next
  case (Cons pg pgs)
  show ?case
  proof (cases pgs)
    case Nil
    then show ?thesis
      by (auto simp: called_def Let_def split: response.splits)
  next
    case (Cons q qs)
    then have "calls (called YP n) YP < calls (snd (yp_pages pgs resp a (called YP n))) YP" for a
      using Cons.IH by simp
    moreover have "calls n YP < calls (called YP n) YP"
      by (simp add: called_def)
    ultimately show ?thesis
      by (auto simp: Let_def split: response.splits intro: less_trans)
  qed
qed

lemma other_source_calls:
  "src \<noteq> Yelp \<Longrightarrow> calls (snd (discoverSingle src resp n)) src > calls n src"
  by (cases src)
     (auto simp: yp_pages_calls discoverPlainSingle_def called_def Let_def split: response.splits)

lemma run_units_tripped:
  "yelpConsecutiveFails n \<ge> 5 \<Longrightarrow>
   calls (snd (run_units units n)) Yelp = calls n Yelp
   \<and> yelpConsecutiveFails (snd (run_units units n)) = yelpConsecutiveFails n
   \<and> yelp_skipped (snd (run_units units n))
       = yelp_skipped n + length (filter (\<lambda>u. fst u = Yelp) units)
   \<and> (\<forall>i < length units. fst (units ! i) = Yelp \<longrightarrow> fst (run_units units n) ! i = Some [])"
proof (induction units arbitrary: n)
  case Nil
  then show ?case by simp
next
  case (Cons u units)
  obtain src resp where u: "u = (src, resp)" by (cases u)
  obtain out n' where d: "discoverSingle src resp n = (out, n')"
    by (cases "discoverSingle src resp n")
  obtain outs n'' where r: "run_units units n' = (outs, n'')"
    by (cases "run_units units n'")
  show ?case
  proof (cases "src = Yelp")
    case True
    have o: "out = Some []" "n' = n\<lparr>yelp_skipped := Suc (yelp_skipped n)\<rparr>"
      using yelp_tripped [OF Cons.prems, of resp] d True by simp_all
    then have "yelpConsecutiveFails n' \<ge> 5" using Cons.prems by simp
    from Cons.IH [OF this] r o u d True show ?thesis
      by (auto simp: nth_Cons split: nat.splits)
  next
    case False
    with other_source_keeps [OF False, of resp n] d
    have k: "yelpConsecutiveFails n' = yelpConsecutiveFails n" "yelp_skipped n' = yelp_skipped n"
      "calls n' Yelp = calls n Yelp" by simp_all
    then have "yelpConsecutiveFails n' \<ge> 5" using Cons.prems by simp
    from Cons.IH [OF this] r k u d False show ?thesis
      by (auto simp: nth_Cons split: nat.splits)
  qed
qed

lemma yelp_failure_step:
  "yelp_failure (resp 0) \<Longrightarrow> yelpConsecutiveFails n < 5 \<Longrightarrow>
   yelpConsecutiveFails (snd (discoverSingle Yelp resp n)) = Suc (yelpConsecutiveFails n)
   \<and> calls (snd (discoverSingle Yelp resp n)) Yelp = Suc (calls n Yelp)"
  by (cases "resp 0") (auto simp: discoverYelpSingle_def called_def Let_def)

lemma run_units_failures:
  "\<forall>u \<in> set units. fst u = Yelp \<and> yelp_failure (snd u 0) \<Longrightarrow>
   yelpConsecutiveFails (snd (run_units units n))
     = (if yelpConsecutiveFails n \<ge> 5 then yelpConsecutiveFails n
        else min 5 (yelpConsecutiveFails n + length units))
   \<and> calls (snd (run_units units n)) Yelp
     = calls n Yelp + min (length units) (5 - yelpConsecutiveFails n)"
proof (induction units arbitrary: n)
  case Nil
  then show ?case by simp
next
  case (Cons u units)
  obtain resp where u: "u = (Yelp, resp)" "yelp_failure (resp 0)"
    using Cons.prems by (cases u) auto
  obtain out n' where d: "discoverSingle Yelp resp n = (out, n')"
    by (cases "discoverSingle Yelp resp n")
  obtain outs n'' where r: "run_units units n' = (outs, n'')"
    by (cases "run_units units n'")
  have IH: "yelpConsecutiveFails n''
     = (if yelpConsecutiveFails n' \<ge> 5 then yelpConsecutiveFails n'
        else min 5 (yelpConsecutiveFails n' + length units))
   \<and> calls n'' Yelp
     = calls n' Yelp + min (length units) (5 - yelpConsecutiveFails n')"
    using Cons.IH [of n'] Cons.prems r by simp
  show ?case
  proof (cases "yelpConsecutiveFails n \<ge> 5")
    case True
    have "n' = n\<lparr>yelp_skipped := Suc (yelp_skipped n)\<rparr>"
      using yelp_tripped [OF True, of resp] d by simp
    with True IH u d r show ?thesis by simp
  next
    case False
    with yelp_failure_step [of resp n] u(2) d
    have "yelpConsecutiveFails n' = Suc (yelpConsecutiveFails n)"
      "calls n' Yelp = Suc (calls n Yelp)" by simp_all
    with False IH u d r show ?thesis by auto
  qed
qed

lemma yelp_success_resets:
  "yelpConsecutiveFails n < 5 \<Longrightarrow> resp 0 = Html False bs \<Longrightarrow> bs \<noteq> [] \<Longrightarrow>
   fst (discoverSingle Yelp resp n) = Some bs
   \<and> yelpConsecutiveFails (snd (discoverSingle Yelp resp n)) = 0"
  by (simp add: discoverYelpSingle_def Let_def called_def)


text \<open>
  C9 (as amended). Only the Yelp adapter has a breaker. Once its counter of consecutive
  failures is at 5, every later Yelp work unit of the process returns nothing, is
  counted as skipped and makes no network call, whatever the other sources do in
  between, and the counter is never reset. Five failed Yelp calls in a row bring the
  counter to 5 with at most five network calls. Below 5, one response with at least one
  business resets the counter to zero. A work unit of any other source always makes a
  network call and leaves the counter alone.
\<close>

theorem yelp_breaker:
  "(yelpConsecutiveFails n \<ge> 5 \<longrightarrow>
      calls (snd (run_units units n)) Yelp = calls n Yelp
      \<and> yelpConsecutiveFails (snd (run_units units n)) = yelpConsecutiveFails n
      \<and> yelp_skipped (snd (run_units units n))
          = yelp_skipped n + length (filter (\<lambda>u. fst u = Yelp) units)
      \<and> (\<forall>i < length units. fst (units ! i) = Yelp \<longrightarrow> fst (run_units units n) ! i = Some []))
   \<and> ((\<forall>u \<in> set fails. fst u = Yelp \<and> yelp_failure (snd u 0)) \<and> length fails \<ge> 5 \<longrightarrow>
      yelpConsecutiveFails (snd (run_units fails n)) \<ge> 5
      \<and> calls (snd (run_units fails n)) Yelp \<le> calls n Yelp + 5)
   \<and> (yelpConsecutiveFails n < 5 \<and> resp 0 = Html False bs \<and> bs \<noteq> [] \<longrightarrow>
      fst (discoverSingle Yelp resp n) = Some bs
      \<and> yelpConsecutiveFails (snd (discoverSingle Yelp resp n)) = 0)
   \<and> (src \<noteq> Yelp \<longrightarrow>
      calls (snd (discoverSingle src resp n)) src > calls n src
      \<and> yelpConsecutiveFails (snd (discoverSingle src resp n)) = yelpConsecutiveFails n)"
  using run_units_tripped [of n units] run_units_failures [of fails n]
    yelp_success_resets [of n resp bs] other_source_calls [of src n resp]
    other_source_keeps [of src resp n]
  by (auto simp: min_def split: if_splits)


text \<open>
  The theorem from the start of a process, after five blocked Yelp calls, and at a
  tripped counter with a Yelp unit that would succeed, a BBB unit and one more Yelp unit.
\<close>

theorem yelp_breaker_witness:
  "yelpConsecutiveFails (snd (run_units (replicate 5 (Yelp, \<lambda>k. NoHtml)) net_init)) \<ge> 5
   \<and> calls (snd (run_units
        [(Yelp, \<lambda>k. Html False
            [rawRecord ''yelp'' ''Sunrise Bakery'' [] [] ''Phoenix'' ''Arizona'' [] ''bakery'']),
         (BBB, \<lambda>k. NoHtml), (Yelp, \<lambda>k. NoHtml)]
        (net_init\<lparr>yelpConsecutiveFails := 5\<rparr>))) Yelp = 0
   \<and> yelp_skipped (snd (run_units
        [(Yelp, \<lambda>k. Html False
            [rawRecord ''yelp'' ''Sunrise Bakery'' [] [] ''Phoenix'' ''Arizona'' [] ''bakery'']),
         (BBB, \<lambda>k. NoHtml), (Yelp, \<lambda>k. NoHtml)]
        (net_init\<lparr>yelpConsecutiveFails := 5\<rparr>))) = 2"
  (is "?trip \<and> ?nocall \<and> ?skipped")
proof -
  let ?fails = "replicate 5 (Yelp, \<lambda>k::nat. NoHtml)"
  let ?units = "[(Yelp, \<lambda>k::nat. Html False
            [rawRecord ''yelp'' ''Sunrise Bakery'' [] [] ''Phoenix'' ''Arizona'' [] ''bakery'']),
         (BBB, \<lambda>k. NoHtml), (Yelp, \<lambda>k. NoHtml)]"
  let ?n = "net_init\<lparr>yelpConsecutiveFails := 5\<rparr>"
  have f: "(\<forall>u \<in> set ?fails. fst u = Yelp \<and> yelp_failure (snd u 0)) \<and> length ?fails \<ge> 5"
    by simp
  have 1: ?trip
    using yelp_breaker [of net_init "[]" ?fails "\<lambda>k. NoHtml" "[]" BBB] f by blast
  have t: "yelpConsecutiveFails ?n \<ge> 5"
    by simp
  have "calls (snd (run_units ?units ?n)) Yelp = calls ?n Yelp
        \<and> yelp_skipped (snd (run_units ?units ?n))
            = yelp_skipped ?n + length (filter (\<lambda>u. fst u = Yelp) ?units)"
    using yelp_breaker [of ?n ?units "[]" "\<lambda>k. NoHtml" "[]" BBB] t by blast
  then have 2: "?nocall \<and> ?skipped"
    by (simp add: net_init_def)
  from 1 2 show ?thesis
    by blast
qed

text \<open>
  C9 as stated fails for the other sources: after five BBB calls that get no page, the
  sixth BBB work unit makes a network call all the same, and nothing is skipped.
\<close>

theorem bbb_no_breaker_counterexample:
  "calls (snd (run_units (replicate 6 (BBB, \<lambda>k. NoHtml)) net_init)) BBB = 6
   \<and> yelp_skipped (snd (run_units (replicate 6 (BBB, \<lambda>k. NoHtml)) net_init)) = 0
   \<and> fst (run_units (replicate 6 (BBB, \<lambda>k. NoHtml)) net_init) = replicate 6 (Some [])"
  by code_simp

subsection \<open>Global deduplication\<close>

lemma foldl_insert_keys:
  "foldl (\<lambda>seen b. insert (f b) seen) S xs = S \<union> f ` set xs"
  by (induction xs arbitrary: S) auto

lemma globalSeen_resume: "globalSeen (resume saved n) = dedupKey ` set (s_allBiz saved)"
  by (simp add: resume_def foldl_insert_keys)

lemma dedupKey_stateKey [simp]: "dedupKey (b\<lparr>stateKey := k\<rparr>) = dedupKey b"
  by (simp add: dedupKey_def)

lemma extends_fresh_refl: "extends_fresh st st"
  by (simp add: extends_fresh_def)

lemma extends_fresh_trans:
  "extends_fresh st st' \<Longrightarrow> extends_fresh st' st'' \<Longrightarrow> extends_fresh st st''"
  unfolding extends_fresh_def by (elim conjE exE) (rule conjI, rule_tac x="new @ newa" in exI, auto)

lemma extends_fresh_same:
  "allBiz st' = allBiz st \<Longrightarrow> globalSeen st' = globalSeen st \<Longrightarrow> extends_fresh st st'"
  by (simp add: extends_fresh_def)

lemma extends_fresh_cong:
  "extends_fresh st st' \<Longrightarrow> allBiz st0 = allBiz st \<Longrightarrow> globalSeen st0 = globalSeen st \<Longrightarrow>
   extends_fresh st0 st'"
  by (simp add: extends_fresh_def)

lemma accept_loop_extends: "extends_fresh st (accept_loop mp cat k rs st)"
proof (induction rs arbitrary: st)
  case Nil
  then show ?case by (simp add: extends_fresh_refl)
next
  case (Cons b rs)
  show ?case
  proof (cases "dedupKey b \<in> globalSeen st")
    case True
    with Cons show ?thesis by simp
  next
    case False
    let ?st' = "st\<lparr>globalSeen := insert (dedupKey b) (globalSeen st),
                    allBiz := allBiz st @ [b\<lparr>stateKey := Some k\<rparr>],
                    chunkBiz := chunkBiz st @ [b\<lparr>stateKey := Some k\<rparr>],
                    catCounts := (catCounts st)(cat := catCounts st cat + 1)\<rparr>"
    have 1: "extends_fresh st ?st'"
      using False by (auto simp: extends_fresh_def)
    have 2: "extends_fresh ?st' (accept_loop mp cat k rs ?st')"
      by (rule Cons.IH)
    from False 1 extends_fresh_trans [OF 1 2] show ?thesis
      by (simp add: Let_def)
  qed
qed

lemma discover_loop_extends: "extends_fresh st (discover_loop cs mp cat units st)"
proof (induction cs mp cat units st rule: discover_loop.induct)
  case (1 chunkSize maxPerCat cat st)
  then show ?case by (simp add: extends_fresh_refl)
next
  case (2 chunkSize maxPerCat cat stopped stKey src resp units st)
  let ?st1 = "st\<lparr>catWorkIdx := (catWorkIdx st)(cat := Suc (catWorkIdx st cat))\<rparr>"
  show ?case
  proof (cases "\<not> length (chunkBiz st) < chunkSize \<or> stopped")
    case True
    then show ?thesis by (auto simp: extends_fresh_refl)
  next
    case False
    obtain out n' where d: "discoverSingle src resp (net ?st1) = (out, n')"
      by (cases "discoverSingle src resp (net ?st1)")
    show ?thesis
    proof (cases out)
      case None
      have "extends_fresh (?st1\<lparr>net := n'\<rparr>)
              (discover_loop chunkSize maxPerCat cat units (?st1\<lparr>net := n'\<rparr>))"
        using "2.IH"(1) False d None by simp
      then have "extends_fresh st (discover_loop chunkSize maxPerCat cat units (?st1\<lparr>net := n'\<rparr>))"
        by (rule extends_fresh_cong) simp_all
      with False d None show ?thesis by simp
    next
      case (Some results)
      let ?st2 = "accept_loop maxPerCat cat stKey results (?st1\<lparr>net := n'\<rparr>)"
      have a: "extends_fresh st ?st2"
        using accept_loop_extends [of "?st1\<lparr>net := n'\<rparr>" maxPerCat cat stKey results]
        by (rule extends_fresh_cong) simp_all
      show ?thesis
      proof (cases "catCounts ?st2 cat \<ge> maxPerCat")
        case True
        with False d Some a show ?thesis by (simp add: Let_def)
      next
        case nocap: False
        have "extends_fresh ?st2 (discover_loop chunkSize maxPerCat cat units ?st2)"
          using "2.IH"(2) False d Some nocap by simp
        with a have "extends_fresh st (discover_loop chunkSize maxPerCat cat units ?st2)"
          by (rule extends_fresh_trans)
        with False d Some nocap show ?thesis by (simp add: Let_def)
      qed
    qed
  qed
qed

lemma discover_turn_extends: "extends_fresh st (discover_turn cs mp st turn)"
  unfolding discover_turn_def
  using discover_loop_extends [of "st\<lparr>chunkBiz := []\<rparr>" cs mp "fst turn" "snd turn"]
  by (rule extends_fresh_cong) simp_all

lemma replay_extends: "extends_fresh st (replay cs mp turns st)"
proof (induction turns arbitrary: st)
  case Nil
  then show ?case by (simp add: replay_def extends_fresh_refl)
next
  case (Cons t turns)
  have "extends_fresh (discover_turn cs mp st t) (replay cs mp turns (discover_turn cs mp st t))"
    by (rule Cons.IH)
  with discover_turn_extends [of st cs mp t]
  have "extends_fresh st (replay cs mp turns (discover_turn cs mp st t))"
    by (rule extends_fresh_trans)
  then show ?case by (simp add: replay_def)
qed


text \<open>
  C8. On resume the seen-set is rebuilt from the entities of the checkpoint, one key for
  each, with no call to any source. Discovery replayed from there, over any category
  turns and any answers of the sources, keeps these keys in the seen-set and only
  appends to the entity list, and no record it appends has the key of an entity that
  was in the list when the checkpoint was written. (Website resolution and enrichment
  change neither the name, the locality nor the region of an entity, so the key of an
  entity in a checkpoint is the key it was accepted with.)
\<close>

theorem resume_never_reaccepts:
  "globalSeen (resume (saveState st0) n) = dedupKey ` set (allBiz st0)
   \<and> dedupKey ` set (allBiz st0)
       \<subseteq> globalSeen (replay chunkSize maxPerCat turns (resume (saveState st0) n))
   \<and> (\<exists>new. allBiz (replay chunkSize maxPerCat turns (resume (saveState st0) n))
               = allBiz st0 @ new
             \<and> (\<forall>b \<in> set new. dedupKey b \<notin> dedupKey ` set (allBiz st0)))"
  using replay_extends [of "resume (saveState st0) n" chunkSize maxPerCat turns]
  by (simp add: extends_fresh_def globalSeen_resume) (simp add: resume_def saveState_def)


text \<open>
  The theorem on a checkpoint written after one bakery was accepted: replay meets the
  same bakery again, in another spelling, and a new one; only the new one is appended.
\<close>

theorem resume_never_reaccepts_witness:
  "allBiz (replay 250 1000
     [(''bakery'', [(False, ''AZ'', BBB, \<lambda>k. Html False
         [rawRecord ''bbb'' ''SUNRISE BAKERY!'' [] [] ''phoenix'' ''Arizona'' [] ''bakery'',
          rawRecord ''bbb'' ''Mesa Muffins'' [] [] ''Mesa'' ''Arizona'' [] ''bakery''])])]
     (resume (saveState
        (discover_loop 250 1000 ''bakery''
           [(False, ''AZ'', Yelp, \<lambda>k. Html False
               [rawRecord ''yelp'' ''Sunrise Bakery'' [] [] ''Phoenix'' ''Arizona'' []
                  ''bakery''])]
           fresh_start)) net_init))
   = [(rawRecord ''yelp'' ''Sunrise Bakery'' [] [] ''Phoenix'' ''Arizona'' [] ''bakery'')
        \<lparr>stateKey := Some ''AZ''\<rparr>,
      (rawRecord ''bbb'' ''Mesa Muffins'' [] [] ''Mesa'' ''Arizona'' [] ''bakery'')
        \<lparr>stateKey := Some ''AZ''\<rparr>]"
  (is "allBiz (replay 250 1000 ?turns (resume (saveState ?st0) net_init)) = [?a, ?c]")
proof -
  obtain new where
    new: "allBiz (replay 250 1000 ?turns (resume (saveState ?st0) net_init)) = allBiz ?st0 @ new"
    and fresh: "\<forall>b \<in> set new. dedupKey b \<notin> dedupKey ` set (allBiz ?st0)"
    using resume_never_reaccepts [of ?st0 net_init 250 1000 ?turns] by blast
  have st0: "allBiz ?st0 = [?a]"
    by code_simp
  have len: "length (allBiz (replay 250 1000 ?turns (resume (saveState ?st0) net_init))) = 2"
    by code_simp
  have last: "last (allBiz (replay 250 1000 ?turns (resume (saveState ?st0) net_init))) = ?c"
    by code_simp
  from new st0 len obtain x where x: "new = [x]"
    by (cases new) auto
  with new st0 last have "x = ?c"
    by simp
  with new st0 x show ?thesis
    by simp
qed

text \<open>Below the quota, the loop creates one entity for each new key among the results.\<close>

lemma accept_loop_counts_keys:
  "catCounts st cat + card (dedupKey ` set rs - globalSeen st) < maxPerCat \<Longrightarrow>
   length (allBiz (accept_loop maxPerCat cat stKey rs st))
     = length (allBiz st) + card (dedupKey ` set rs - globalSeen st)"
proof (induction rs arbitrary: st)
  case Nil
  then show ?case by simp
next
  case (Cons b rs)
  show ?case
  proof (cases "dedupKey b \<in> globalSeen st")
    case True
    then have "dedupKey ` set (b # rs) - globalSeen st = dedupKey ` set rs - globalSeen st"
      by auto
    with True Cons show ?thesis by simp
  next
    case False
    let ?st' = "st\<lparr>globalSeen := insert (dedupKey b) (globalSeen st),
                    allBiz := allBiz st @ [b\<lparr>stateKey := Some stKey\<rparr>],
                    chunkBiz := chunkBiz st @ [b\<lparr>stateKey := Some stKey\<rparr>],
                    catCounts := (catCounts st)(cat := catCounts st cat + 1)\<rparr>"
    have s: "dedupKey ` set (b # rs) - globalSeen st
               = insert (dedupKey b) (dedupKey ` set rs - globalSeen ?st')"
      using False by auto
    have "dedupKey b \<notin> dedupKey ` set rs - globalSeen ?st'"
      by simp
    then have c: "card (dedupKey ` set (b # rs) - globalSeen st)
                    = Suc (card (dedupKey ` set rs - globalSeen ?st'))"
      unfolding s by (subst card_insert_disjoint) auto
    with Cons.prems have cap: "catCounts ?st' cat + card (dedupKey ` set rs - globalSeen ?st')
                                 < maxPerCat"
      by simp
    then have nb: "\<not> catCounts ?st' cat \<ge> maxPerCat"
      by simp
    from Cons.IH [OF cap] have "length (allBiz (accept_loop maxPerCat cat stKey rs ?st'))
        = length (allBiz ?st') + card (dedupKey ` set rs - globalSeen ?st')" .
    with False nb c show ?thesis
      by (simp add: Let_def)
  qed
qed

text \<open>
  C7 (as amended). A record whose key is not in the seen-set is appended to the entity
  list as an entity of its own, tagged with the state key; \<^verbatim>\<open>run\<close> never compares it
  with the entities it has. Two records with different keys, both new, become two
  entities (below the quota), also when \<^verbatim>\<open>sameEntity\<close> would match them; and for any
  results, the number of entities created is the number of distinct keys among them
  that were not seen before, whatever their phones, websites and names are.
\<close>

theorem accept_ignores_similarity:
  "(dedupKey a \<notin> globalSeen st \<longrightarrow>
      allBiz (accept_loop maxPerCat cat stKey [a] st) = allBiz st @ [a\<lparr>stateKey := Some stKey\<rparr>])
   \<and> (dedupKey a \<notin> globalSeen st \<and> dedupKey b \<notin> globalSeen st \<and> dedupKey a \<noteq> dedupKey b
       \<and> catCounts st cat + 1 < maxPerCat \<longrightarrow>
      allBiz (accept_loop maxPerCat cat stKey [a, b] st)
        = allBiz st @ [a\<lparr>stateKey := Some stKey\<rparr>, b\<lparr>stateKey := Some stKey\<rparr>])
   \<and> (catCounts st cat + card (dedupKey ` set rs - globalSeen st) < maxPerCat \<longrightarrow>
      length (allBiz (accept_loop maxPerCat cat stKey rs st))
        = length (allBiz st) + card (dedupKey ` set rs - globalSeen st))"
proof -
  have "dedupKey a \<notin> globalSeen st \<longrightarrow>
          allBiz (accept_loop maxPerCat cat stKey [a] st)
            = allBiz st @ [a\<lparr>stateKey := Some stKey\<rparr>]"
    by (auto simp: Let_def)
  moreover have "dedupKey a \<notin> globalSeen st \<and> dedupKey b \<notin> globalSeen st
      \<and> dedupKey a \<noteq> dedupKey b \<and> catCounts st cat + 1 < maxPerCat \<longrightarrow>
      allBiz (accept_loop maxPerCat cat stKey [a, b] st)
        = allBiz st @ [a\<lparr>stateKey := Some stKey\<rparr>, b\<lparr>stateKey := Some stKey\<rparr>]"
    by (auto simp: Let_def)
  moreover have "catCounts st cat + card (dedupKey ` set rs - globalSeen st) < maxPerCat \<longrightarrow>
      length (allBiz (accept_loop maxPerCat cat stKey rs st))
        = length (allBiz st) + card (dedupKey ` set rs - globalSeen st)"
    by (simp add: accept_loop_counts_keys)
  ultimately show ?thesis
    by blast
qed


theorem accept_ignores_similarity_witness:
  "allBiz (accept_loop 1000 ''bakery'' ''AZ''
     [rawRecord ''yelp'' ''Sunrise Bakery'' ''(555) 111-2222'' [] ''Phoenix'' ''Arizona'' []
        ''bakery'',
      rawRecord ''yelp'' ''Sunrise Bakery & Cafe'' ''555-111-2222'' [] ''Phoenix'' ''Arizona''
        ''sunrisebakery.com'' ''bakery'']
     fresh_start)
   = [(rawRecord ''yelp'' ''Sunrise Bakery'' ''(555) 111-2222'' [] ''Phoenix'' ''Arizona'' []
        ''bakery'')\<lparr>stateKey := Some ''AZ''\<rparr>,
      (rawRecord ''yelp'' ''Sunrise Bakery & Cafe'' ''555-111-2222'' [] ''Phoenix'' ''Arizona''
        ''sunrisebakery.com'' ''bakery'')\<lparr>stateKey := Some ''AZ''\<rparr>]"
  (is "allBiz (accept_loop 1000 ''bakery'' ''AZ'' [?a, ?b] fresh_start) = _")
proof -
  have h: "dedupKey ?a \<notin> globalSeen fresh_start \<and> dedupKey ?b \<notin> globalSeen fresh_start
           \<and> dedupKey ?a \<noteq> dedupKey ?b \<and> catCounts fresh_start ''bakery'' + 1 < 1000"
    by code_simp
  have "allBiz (accept_loop 1000 ''bakery'' ''AZ'' [?a, ?b] fresh_start)
          = allBiz fresh_start @ [?a\<lparr>stateKey := Some ''AZ''\<rparr>, ?b\<lparr>stateKey := Some ''AZ''\<rparr>]"
    using accept_ignores_similarity [of ?a fresh_start 1000 "''bakery''" "''AZ''" ?b] h
    by blast
  then show ?thesis
    by (simp add: fresh_start_def)
qed

text \<open>
  C7 as stated fails: these two records have the same ten-digit phone, so
  \<^verbatim>\<open>sameEntity\<close> matches them and \<^verbatim>\<open>dedupe\<close> would merge them, but their keys differ
  and discovery keeps both as entities.
\<close>

theorem accept_equal_phone_counterexample:
  "sameEntity
     (rawRecord ''yelp'' ''Sunrise Bakery'' ''(555) 111-2222'' [] ''Phoenix'' ''Arizona'' []
        ''bakery'')
     (rawRecord ''yelp'' ''Desert Plumbing'' ''555-111-2222'' [] ''Tucson'' ''Arizona'' []
        ''bakery'')
   \<and> dedupKey
       (rawRecord ''yelp'' ''Sunrise Bakery'' ''(555) 111-2222'' [] ''Phoenix'' ''Arizona'' []
          ''bakery'')
     \<noteq> dedupKey
       (rawRecord ''yelp'' ''Desert Plumbing'' ''555-111-2222'' [] ''Tucson'' ''Arizona'' []
          ''bakery'')
   \<and> length (allBiz (discover_loop 250 1000 ''bakery''
       [(False, ''AZ'', Yelp, \<lambda>k. Html False
           [rawRecord ''yelp'' ''Sunrise Bakery'' ''(555) 111-2222'' [] ''Phoenix'' ''Arizona''
              [] ''bakery'',
            rawRecord ''yelp'' ''Desert Plumbing'' ''555-111-2222'' [] ''Tucson'' ''Arizona''
              [] ''bakery''])]
       fresh_start)) = 2"
  by code_simp

subsection \<open>Rows before enrichment\<close>

lemma accepted_rows_append [simp]:
  "accepted_rows (xs @ ys) = accepted_rows xs @ accepted_rows ys"
  by (induction xs rule: accepted_rows.induct) auto

lemma sink_phase_refl: "sink_phase st st [] []"
  by (simp add: sink_phase_def list_all_iff)

lemma sink_phase_trans:
  assumes "sink_phase st st' rows pre" and "sink_phase st' st'' rows' pre'"
  shows "sink_phase st st'' (rows @ rows') (pre @ pre')"
proof -
  have a: "accepted_rows pre @ rowBuffer st' = rowBuffer st @ rows"
    and b: "accepted_rows pre' @ rowBuffer st'' = rowBuffer st' @ rows'"
    using assms by (simp_all add: sink_phase_def)
  have acc: "accepted_rows (pre @ pre') @ rowBuffer st'' = rowBuffer st @ rows @ rows'"
    using a b by (metis accepted_rows_append append.assoc)
  have "r \<in> set (rowBuffer st'') \<or> (\<exists>e \<in> set (pre @ pre'). r \<in> set (sent_rows e))"
    if "r \<in> set (rowBuffer st @ rows @ rows')" for r
  proof (cases "r \<in> set (rowBuffer st @ rows)")
    case True
    then have "r \<in> set (rowBuffer st') \<or> (\<exists>e \<in> set pre. r \<in> set (sent_rows e))"
      using assms(1) by (auto simp: sink_phase_def list_all_iff list_ex_iff)
    then show ?thesis
    proof
      assume "r \<in> set (rowBuffer st')"
      then have "r \<in> set (rowBuffer st' @ rows')" by simp
      then show ?thesis
        using assms(2) by (auto simp: sink_phase_def list_all_iff list_ex_iff)
    qed auto
  next
    case False
    with that have "r \<in> set (rowBuffer st' @ rows')" by auto
    then show ?thesis
      using assms(2) by (auto simp: sink_phase_def list_all_iff list_ex_iff)
  qed
  then show ?thesis
    using assms acc by (auto simp: sink_phase_def list_all_iff list_ex_iff)
qed

lemma sink_phase_append: "sink_phase st (sink_append accepts tab st) []
   [SinkAppend tab (rowBuffer st) (accepts (appends st))]"
  by (simp add: sink_phase_def sink_append_def Let_def list_all_iff)

lemma sink_phase_buffer:
  "sink_phase st (st\<lparr>rowBuffer := rowBuffer st @ rows\<rparr>) rows []"
  by (simp add: sink_phase_def list_all_iff)

lemma sink_phase_batchPushRows:
  "\<exists>pre. sink_phase st (batchPushRows accepts today tab bs st) (toRows today bs) pre"
proof (cases "toRows today bs = []")
  case True
  then show ?thesis
    using sink_phase_refl [of st] by (auto simp: batchPushRows_def)
next
  case False
  let ?st' = "st\<lparr>rowBuffer := rowBuffer st @ toRows today bs\<rparr>"
  show ?thesis
  proof (cases "length (rowBuffer ?st') \<ge> batchSize")
    case True
    have "sink_phase st (sink_append accepts tab ?st') (toRows today bs @ [])
            ([] @ [SinkAppend tab (rowBuffer ?st') (accepts (appends ?st'))])"
      by (rule sink_phase_trans [OF sink_phase_buffer sink_phase_append])
    with True False show ?thesis
      by (auto simp: batchPushRows_def Let_def)
  next
    case nb: False
    with False sink_phase_buffer [of st "toRows today bs"] show ?thesis
      by (auto simp: batchPushRows_def Let_def)
  qed
qed

lemma sink_phase_flushRows: "\<exists>pre. sink_phase st (flushRows accepts tab st) [] pre"
  using sink_phase_refl [of st] sink_phase_append [of st accepts tab]
  by (auto simp: flushRows_def)

lemma sink_phase_push_biz:
  "\<exists>pre. sink_phase st (push_biz accepts today st b)
            (if has_tab b then toRows today [b] else []) pre"
  using sink_phase_refl [of st] sink_phase_batchPushRows [of st accepts today _ "[b]"]
  by (auto simp: push_biz_def has_tab_def split: option.splits)

lemma sink_phase_foldl_push:
  "\<exists>pre. sink_phase st (foldl (push_biz accepts today) st bs)
            (concat (map (\<lambda>b. if has_tab b then toRows today [b] else []) bs)) pre"
proof (induction bs arbitrary: st)
  case Nil
  then show ?case using sink_phase_refl by auto
next
  case (Cons b bs)
  obtain p1 where 1: "sink_phase st (push_biz accepts today st b)
                        (if has_tab b then toRows today [b] else []) p1"
    using sink_phase_push_biz by blast
  obtain p2 where 2: "sink_phase (push_biz accepts today st b)
                        (foldl (push_biz accepts today) (push_biz accepts today st b) bs)
                        (concat (map (\<lambda>b. if has_tab b then toRows today [b] else []) bs)) p2"
    using Cons.IH by blast
  from sink_phase_trans [OF 1 2] show ?case by auto
qed

lemma sink_phase_flush_all: "\<exists>pre. sink_phase st (flush_all accepts tabs st) [] pre"
proof (induction tabs arbitrary: st)
  case Nil
  then show ?case using sink_phase_refl by (auto simp: flush_all_def)
next
  case (Cons t tabs)
  obtain p1 where 1: "sink_phase st (flushRows accepts t st) [] p1"
    using sink_phase_flushRows by blast
  obtain p2 where 2: "sink_phase (flushRows accepts t st)
                        (flush_all accepts tabs (flushRows accepts t st)) [] p2"
    using Cons.IH by blast
  from sink_phase_trans [OF 1 2] show ?case by (auto simp: flush_all_def)
qed

text \<open>A flush over at least one tab sends every buffered row.\<close>

lemma flushRows_sends:
  "sink_phase st (flushRows accepts tab st) [] pre \<Longrightarrow>
   list_all (\<lambda>r. list_ex (\<lambda>e. r \<in> set (sent_rows e)) pre) (rowBuffer st)"
  by (cases "rowBuffer st = []")
     (auto simp: sink_phase_def flushRows_def sink_append_def Let_def list_all_iff list_ex_iff)

lemma flush_all_sends:
  assumes "tabs \<noteq> []" and "sink_phase st (flush_all accepts tabs st) [] pre"
  shows "list_all (\<lambda>r. list_ex (\<lambda>e. r \<in> set (sent_rows e)) pre) (rowBuffer st)"
proof -
  obtain t ts where tabs: "tabs = t # ts"
    using assms(1) by (cases tabs) auto
  obtain p1 where 1: "sink_phase st (flushRows accepts t st) [] p1"
    using sink_phase_flushRows by blast
  obtain p2 where 2: "sink_phase (flushRows accepts t st)
                        (flush_all accepts ts (flushRows accepts t st)) [] p2"
    using sink_phase_flush_all by blast
  have "events (flush_all accepts tabs st) = events st @ p1 @ p2"
    using 1 2 tabs by (simp add: sink_phase_def flush_all_def)
  moreover have "events (flush_all accepts tabs st) = events st @ pre"
    using assms(2) by (simp add: sink_phase_def)
  ultimately have "pre = p1 @ p2" by simp
  with flushRows_sends [OF 1] show ?thesis
    by (auto simp: list_all_iff list_ex_iff)
qed

lemma flushRows_accepting:
  "\<forall>n. accepts n \<Longrightarrow> rowBuffer (flushRows accepts tab st) = []"
  by (simp add: flushRows_def sink_append_def)

lemma flush_all_empty: "rowBuffer st = [] \<Longrightarrow> rowBuffer (flush_all accepts tabs st) = []"
proof (induction tabs arbitrary: st)
  case Nil
  then show ?case by (simp add: flush_all_def)
next
  case (Cons t tabs)
  then have "rowBuffer (flushRows accepts t st) = []"
    by (simp add: flushRows_def)
  from Cons.IH [OF this] show ?case
    by (simp add: flush_all_def)
qed

lemma flush_all_accepting:
  assumes "\<forall>n. accepts n" and "tabs \<noteq> []"
  shows "rowBuffer (flush_all accepts tabs st) = []"
proof -
  obtain t ts where tabs: "tabs = t # ts"
    using assms(2) by (cases tabs) auto
  have "rowBuffer (flushRows accepts t st) = []"
    using assms(1) by (rule flushRows_accepting)
  then have "rowBuffer (flush_all accepts ts (flushRows accepts t st)) = []"
    by (rule flush_all_empty)
  then show ?thesis
    by (simp add: tabs flush_all_def)
qed

lemma push_noSites_phase:
  assumes "tabs \<noteq> []"
  shows "\<exists>pre. sink_phase st (push_noSites accepts today tabs noSites st)
            (concat (map (\<lambda>b. if has_tab b then toRows today [b] else []) noSites)) pre
          \<and> list_all (\<lambda>r. list_ex (\<lambda>e. r \<in> set (sent_rows e)) pre)
              (concat (map (\<lambda>b. if has_tab b then toRows today [b] else []) noSites))"
proof (cases "noSites = []")
  case True
  then show ?thesis using sink_phase_refl [of st] by (auto simp: push_noSites_def)
next
  case False
  let ?rows = "concat (map (\<lambda>b. if has_tab b then toRows today [b] else []) noSites)"
  let ?sa = "foldl (push_biz accepts today) st noSites"
  obtain p1 where 1: "sink_phase st ?sa ?rows p1"
    using sink_phase_foldl_push by blast
  obtain p2 where 2: "sink_phase ?sa (flush_all accepts tabs ?sa) [] p2"
    using sink_phase_flush_all by blast
  have 3: "sink_phase st (flush_all accepts tabs ?sa) ?rows (p1 @ p2)"
    using sink_phase_trans [OF 1 2] by simp
  have "list_ex (\<lambda>e. r \<in> set (sent_rows e)) (p1 @ p2)" if "r \<in> set ?rows" for r
  proof -
    from that 1 have "r \<in> set (rowBuffer ?sa) \<or> list_ex (\<lambda>e. r \<in> set (sent_rows e)) p1"
      by (auto simp: sink_phase_def list_all_iff)
    moreover have "list_ex (\<lambda>e. r \<in> set (sent_rows e)) p2" if "r \<in> set (rowBuffer ?sa)"
      using flush_all_sends [OF assms 2] that by (auto simp: list_all_iff)
    ultimately show ?thesis by (auto simp: list_ex_iff)
  qed
  then have "list_all (\<lambda>r. list_ex (\<lambda>e. r \<in> set (sent_rows e)) (p1 @ p2)) ?rows"
    by (simp add: list_all_iff)
  with 3 False show ?thesis
    by (intro exI [of _ "p1 @ p2"]) (simp add: push_noSites_def)
qed

lemma sink_phase_enrich_phase: "sink_phase st st' rows pre \<Longrightarrow> enrich_phase st st' [] pre"
  by (auto simp: sink_phase_def enrich_phase_def list_all_iff filter_empty_conv)

lemma enrich_phase_trans:
  assumes "enrich_phase st st' bs p" and "enrich_phase st' st'' bs' p'"
  shows "enrich_phase st st'' (bs @ bs') (p @ p')"
proof -
  obtain e1 where a: "accepted_rows p @ rowBuffer st' = rowBuffer st @ e1"
    using assms(1) by (auto simp: enrich_phase_def)
  obtain e2 where b: "accepted_rows p' @ rowBuffer st'' = rowBuffer st' @ e2"
    using assms(2) by (auto simp: enrich_phase_def)
  have "accepted_rows (p @ p') @ rowBuffer st'' = rowBuffer st @ (e1 @ e2)"
    using a b by (metis accepted_rows_append append.assoc)
  then show ?thesis
    using assms by (auto simp: enrich_phase_def)
qed

lemma enrich_phase_call:
  "enrich_phase st (st\<lparr>events := events st @ [EnrichCall b]\<rparr>) [b] [EnrichCall b]"
  by (simp add: enrich_phase_def)

lemma enrich_loop_phase:
  "\<exists>k post. enrich_phase st (fst (enrich_loop accepts stopped enrich today tabs i bs st))
               (take k bs) post
     \<and> k \<le> length bs \<and> ((\<forall>j. \<not> stopped j) \<longrightarrow> k = length bs)"
proof (induction bs arbitrary: i st)
  case Nil
  then show ?case
    using sink_phase_enrich_phase [OF sink_phase_refl, of st] by auto
next
  case (Cons b bs)
  show ?case
  proof (cases "stopped i")
    case True
    obtain p where "sink_phase st (flush_all accepts tabs st) [] p"
      using sink_phase_flush_all by blast
    then have "enrich_phase st (flush_all accepts tabs st) (take 0 (b # bs)) p"
      by (simp add: sink_phase_enrich_phase)
    with True show ?thesis
      by (intro exI [of _ 0] exI [of _ p]) auto
  next
    case False
    let ?st' = "st\<lparr>events := events st @ [EnrichCall b]\<rparr>"
    let ?st'' = "case enrich b of Enriched eb \<Rightarrow> push_biz accepts today ?st' eb
                 | Failed b' \<Rightarrow> push_biz accepts today ?st' b'"
    have 1: "enrich_phase st ?st' [b] [EnrichCall b]"
      by (rule enrich_phase_call)
    obtain p2 where 2: "enrich_phase ?st' ?st'' [] p2"
      using sink_phase_push_biz [of ?st' accepts today] sink_phase_enrich_phase
      by (cases "enrich b") (auto, blast+)
    obtain k p3 where 3: "enrich_phase ?st''
        (fst (enrich_loop accepts stopped enrich today tabs (Suc i) bs ?st'')) (take k bs) p3"
      "k \<le> length bs" "(\<forall>j. \<not> stopped j) \<longrightarrow> k = length bs"
      using Cons.IH by blast
    have "enrich_phase st (fst (enrich_loop accepts stopped enrich today tabs (Suc i) bs ?st''))
            ([b] @ [] @ take k bs) ([EnrichCall b] @ p2 @ p3)"
      by (rule enrich_phase_trans [OF 1 enrich_phase_trans [OF 2 3(1)]])
    with False 3 show ?thesis
      by (intro exI [of _ "Suc k"] exI [of _ "[EnrichCall b] @ p2 @ p3"]) (simp add: Let_def)
  qed
qed

lemma chunk_step3_phase:
  "\<exists>k post. enrich_phase (push_noSites accepts today tabs (filter (\<lambda>b. website b = []) chunk) st)
               (chunk_step3 accepts stopped enrich today tabs chunk st)
               (take k (filter (\<lambda>b. website b \<noteq> []) chunk)) post
     \<and> ((\<forall>j. \<not> stopped j) \<longrightarrow> k = length (filter (\<lambda>b. website b \<noteq> []) chunk))"
proof -
  let ?st1 = "push_noSites accepts today tabs (filter (\<lambda>b. website b = []) chunk) st"
  let ?ws = "filter (\<lambda>b. website b \<noteq> []) chunk"
  obtain st2 early where r: "enrich_loop accepts stopped enrich today tabs 0 ?ws ?st1 = (st2, early)"
    by (cases "enrich_loop accepts stopped enrich today tabs 0 ?ws ?st1")
  obtain k p where k: "enrich_phase ?st1 st2 (take k ?ws) p"
    "(\<forall>j. \<not> stopped j) \<longrightarrow> k = length ?ws"
    using enrich_loop_phase [of ?st1 accepts stopped enrich today tabs 0 ?ws] r by auto
  show ?thesis
  proof (cases early)
    case True
    with r k show ?thesis by (auto simp: chunk_step3_def Let_def)
  next
    case False
    obtain p' where "sink_phase st2 (flush_all accepts tabs st2) [] p'"
      using sink_phase_flush_all by blast
    then have "enrich_phase st2 (flush_all accepts tabs st2) [] p'"
      by (rule sink_phase_enrich_phase)
    with k(1) have "enrich_phase ?st1 (flush_all accepts tabs st2) (take k ?ws @ []) (p @ p')"
      by (rule enrich_phase_trans)
    with False r k(2) show ?thesis
      by (auto simp: chunk_step3_def Let_def)
  qed
qed

lemma push_noSites_accepting:
  "\<forall>n. accepts n \<Longrightarrow> tabs \<noteq> [] \<Longrightarrow> noSites \<noteq> [] \<Longrightarrow>
   rowBuffer (push_noSites accepts today tabs noSites st) = []"
  by (simp add: push_noSites_def flush_all_accepting)


lemma toRows_single: "toRows today [b] = biz_rows today b"
  by (simp add: toRows_def)

lemma rows_all_tabbed:
  "\<forall>b \<in> set bs. has_tab b \<Longrightarrow>
   concat (map (\<lambda>b. if has_tab b then toRows today [b] else []) bs) = toRows today bs"
  by (induction bs) (auto simp: toRows_def)


text \<open>
  C6. Step 3 of a category turn, for a chunk whose entities all have a tab and at least
  one target tab: the events of the step split into \<open>pre\<close>, what happens up to the end
  of the block for the entities without a website, and \<open>post\<close>, the rest. No call of the
  enrichment is in \<open>pre\<close>; every row of every entity without a website is sent to the
  sink in an append call of \<open>pre\<close>; the calls of the enrichment are all in \<open>post\<close>, for
  the entities with a website in discovery order (all of them unless the run is
  stopped). The sink accepts rows in the order they were pushed, the rows of the
  entities without a website before any row pushed during enrichment; and when the sink
  accepts every call, all rows of the entities without a website are in the sink at the
  end of \<open>pre\<close>.
\<close>

theorem nosite_rows_before_enrichment:
  assumes "tabs \<noteq> []" and "\<forall>b \<in> set chunk. has_tab b"
  shows "\<exists>pre post k enr.
      events (push_noSites accepts today tabs (filter (\<lambda>b. website b = []) chunk) st)
        = events st @ pre
    \<and> events (chunk_step3 accepts stopped enrich today tabs chunk st) = events st @ pre @ post
    \<and> (\<forall>e \<in> set pre. \<not> is_enrich e)
    \<and> (\<forall>b \<in> set chunk. website b = [] \<longrightarrow>
         (\<forall>r \<in> set (toRows today [b]). \<exists>e \<in> set pre. r \<in> set (sent_rows e)))
    \<and> filter is_enrich post = map EnrichCall (take k (filter (\<lambda>b. website b \<noteq> []) chunk))
    \<and> ((\<forall>i. \<not> stopped i) \<longrightarrow> k = length (filter (\<lambda>b. website b \<noteq> []) chunk))
    \<and> accepted_rows (pre @ post)
        @ rowBuffer (chunk_step3 accepts stopped enrich today tabs chunk st)
        = rowBuffer st @ toRows today (filter (\<lambda>b. website b = []) chunk) @ enr
    \<and> ((\<forall>n. accepts n) \<and> (\<exists>b \<in> set chunk. website b = []) \<longrightarrow>
         accepted_rows pre = rowBuffer st @ toRows today (filter (\<lambda>b. website b = []) chunk))"
proof -
  let ?ns = "filter (\<lambda>b. website b = []) chunk"
  let ?ws = "filter (\<lambda>b. website b \<noteq> []) chunk"
  let ?st1 = "push_noSites accepts today tabs ?ns st"
  let ?fin = "chunk_step3 accepts stopped enrich today tabs chunk st"
  have rows: "concat (map (\<lambda>b. if has_tab b then toRows today [b] else []) ?ns)
                = toRows today ?ns"
    using assms(2) by (intro rows_all_tabbed) simp
  obtain pre where pre: "sink_phase st ?st1 (toRows today ?ns) pre"
    and sent: "list_all (\<lambda>r. list_ex (\<lambda>e. r \<in> set (sent_rows e)) pre) (toRows today ?ns)"
    using push_noSites_phase [OF assms(1), of st accepts today ?ns] rows by auto
  obtain k post where post: "enrich_phase ?st1 ?fin (take k ?ws) post"
    and k: "(\<forall>j. \<not> stopped j) \<longrightarrow> k = length ?ws"
    using chunk_step3_phase [of accepts today tabs chunk st stopped enrich] by blast
  obtain enr where enr: "accepted_rows post @ rowBuffer ?fin = rowBuffer ?st1 @ enr"
    using post by (auto simp: enrich_phase_def)
  have e1: "events ?st1 = events st @ pre"
    using pre by (simp add: sink_phase_def)
  have e2: "events ?fin = events st @ pre @ post"
    using post e1 by (simp add: enrich_phase_def)
  have ne: "\<forall>e \<in> set pre. \<not> is_enrich e"
    using pre by (simp add: sink_phase_def list_all_iff)
  have acc1: "accepted_rows pre @ rowBuffer ?st1 = rowBuffer st @ toRows today ?ns"
    using pre by (simp add: sink_phase_def)
  have s: "\<forall>b \<in> set chunk. website b = [] \<longrightarrow>
             (\<forall>r \<in> set (toRows today [b]). \<exists>e \<in> set pre. r \<in> set (sent_rows e))"
  proof (intro ballI impI)
    fix b r
    assume "b \<in> set chunk" "website b = []" "r \<in> set (toRows today [b])"
    then have "r \<in> set (toRows today ?ns)"
      by (auto simp: toRows_def)
    with sent show "\<exists>e \<in> set pre. r \<in> set (sent_rows e)"
      by (simp add: list_all_iff list_ex_iff)
  qed
  have f: "filter is_enrich post = map EnrichCall (take k ?ws)"
    using post by (simp add: enrich_phase_def)
  have acc: "accepted_rows (pre @ post) @ rowBuffer ?fin
               = rowBuffer st @ toRows today ?ns @ enr"
    using acc1 enr by (metis accepted_rows_append append.assoc)
  have full: "(\<forall>n. accepts n) \<and> (\<exists>b \<in> set chunk. website b = []) \<longrightarrow>
                accepted_rows pre = rowBuffer st @ toRows today ?ns"
  proof
    assume a: "(\<forall>n. accepts n) \<and> (\<exists>b \<in> set chunk. website b = [])"
    then have "?ns \<noteq> []"
      by (auto simp: filter_empty_conv)
    with a assms(1) have "rowBuffer ?st1 = []"
      by (simp add: push_noSites_accepting)
    with acc1 show "accepted_rows pre = rowBuffer st @ toRows today ?ns"
      by simp
  qed
  from e1 e2 ne s f k acc full show ?thesis
    by blast
qed


text \<open>
  The theorem on the scenario of three entities without a website and two with one: the
  sink has the three rows before the first enrichment, in one append; the two enriched
  rows follow in the final flush.
\<close>

theorem nosite_rows_before_enrichment_witness:
  "accepted_rows
     (events (push_noSites (\<lambda>n. True) ''2026-01-15'' [''Arizona'']
        (filter (\<lambda>b. website b = []) scenario_chunk) sheet_init))
     = toRows ''2026-01-15'' (filter (\<lambda>b. website b = []) scenario_chunk)
   \<and> events (chunk_step3 (\<lambda>n. True) (\<lambda>i. False) (\<lambda>b. Enriched (scenario_enriched b)) ''2026-01-15'' [''Arizona'']
        scenario_chunk sheet_init)
     = [SinkAppend ''Arizona''
          (toRows ''2026-01-15'' [scenario_chunk ! 0, scenario_chunk ! 2, scenario_chunk ! 4])
          True,
        EnrichCall (scenario_chunk ! 1),
        EnrichCall (scenario_chunk ! 3),
        SinkAppend ''Arizona''
          (toRows ''2026-01-15''
             [scenario_enriched (scenario_chunk ! 1),
              scenario_enriched (scenario_chunk ! 3)])
          True]"
proof -
  have t: "[''Arizona''] \<noteq> []"
    by simp
  have h: "\<forall>b \<in> set scenario_chunk. has_tab b"
    by code_simp
  have n: "\<exists>b \<in> set scenario_chunk. website b = []"
    by code_simp
  from nosite_rows_before_enrichment [OF t h, of "\<lambda>n. True" "''2026-01-15''" sheet_init]
  obtain pre where
    "events (push_noSites (\<lambda>n. True) ''2026-01-15'' [''Arizona'']
        (filter (\<lambda>b. website b = []) scenario_chunk) sheet_init) = events sheet_init @ pre"
    "(\<forall>n::nat. True) \<and> (\<exists>b \<in> set scenario_chunk. website b = []) \<longrightarrow>
       accepted_rows pre = rowBuffer sheet_init
         @ toRows ''2026-01-15'' (filter (\<lambda>b. website b = []) scenario_chunk)"
    by blast
  with n have 1: "accepted_rows
     (events (push_noSites (\<lambda>n. True) ''2026-01-15'' [''Arizona'']
        (filter (\<lambda>b. website b = []) scenario_chunk) sheet_init))
     = toRows ''2026-01-15'' (filter (\<lambda>b. website b = []) scenario_chunk)"
    by (simp add: sheet_init_def)
  have 2: "events (chunk_step3 (\<lambda>n. True) (\<lambda>i. False) (\<lambda>b. Enriched (scenario_enriched b)) ''2026-01-15'' [''Arizona'']
        scenario_chunk sheet_init)
     = [SinkAppend ''Arizona''
          (toRows ''2026-01-15'' [scenario_chunk ! 0, scenario_chunk ! 2, scenario_chunk ! 4])
          True,
        EnrichCall (scenario_chunk ! 1),
        EnrichCall (scenario_chunk ! 3),
        SinkAppend ''Arizona''
          (toRows ''2026-01-15''
             [scenario_enriched (scenario_chunk ! 1),
              scenario_enriched (scenario_chunk ! 3)])
          True]"
    by code_simp
  from 1 2 show ?thesis
    by (rule conjI)
qed



end
